theory Spec2Isabelle
  imports Main "HOL-Library.Multiset"
begin

section \<open>Values, errors and sequences\<close>

text \<open>
  The metadata dictionaries of the pipelines hold scalars (\<^verbatim>\<open>batch_size\<close>,
  \<^verbatim>\<open>ignore_cached\<close>, \<^verbatim>\<open>model\<close>, \<^verbatim>\<open>recursion_depth\<close>). A dictionary is a
  map from keys to values; \<^verbatim>\<open>{**a, **b}\<close> is \<open>a ++ b\<close>. Dictionaries are objects:
  a variable holds the address of one, and the heap of the state below holds its
  content. A JSON document that the engine never opens (the \<^verbatim>\<open>data\<close> column) is
  kept as its text.
\<close>

datatype jval = JInt int | JBool bool | JStr string

type_synonym dict = "string \<rightharpoonup> jval"

type_synonym addr = nat

type_synonym json = string

text \<open>
  The exceptions of the source. \<open>BatchIsEmpty\<close> is \<^verbatim>\<open>ValueError("Batch is empty")\<close>,
  \<open>MaxDepthReached n\<close> is \<^verbatim>\<open>ValueError(f"Max depth of {self.max_depth} reached ...")\<close>
  with \<open>n\<close> the number in the message, \<open>RangeStepZero\<close> is the \<^verbatim>\<open>ValueError\<close> of
  \<^verbatim>\<open>range\<close> called with step 0, \<open>CollaboratorFailure\<close> is an exception that an
  external collaborator raised, \<open>CancelledError\<close> is \<^verbatim>\<open>asyncio.CancelledError\<close>, which
  a task group does not count as a failure of a task, and \<open>ExceptionGroup\<close> is what
  \<^verbatim>\<open>asyncio.TaskGroup\<close> raises when tasks of the group failed, with their exceptions
  in the order in which the tasks ended.
\<close>

datatype error =
    BatchIsEmpty
  | MaxDepthReached int
  | RangeStepZero
  | CollaboratorFailure string
  | CancelledError
  | ExceptionGroup "error list"

text \<open>
  An asynchronous iterable, drained: the items it yields, ended by a normal return
  (\<open>Done\<close>) or by an exception (\<open>Raise\<close>).
\<close>

datatype 'a stream = Done | Raise error | Yield 'a "'a stream"

fun yields :: "'a stream \<Rightarrow> 'a list" where
  "yields Done = []"
| "yields (Raise e) = []"
| "yields (Yield x g) = x # yields g"

fun outcome :: "'a stream \<Rightarrow> error option" where
  "outcome Done = None"
| "outcome (Raise e) = Some e"
| "outcome (Yield x g) = outcome g"

text \<open>\<^verbatim>\<open>for item in xs: yield item\<close>, followed by what the generator does next.\<close>

fun yield_all :: "'a list \<Rightarrow> 'a stream \<Rightarrow> 'a stream" where
  "yield_all [] g = g"
| "yield_all (x # xs) g = Yield x (yield_all xs g)"

definition generate :: "'a list \<Rightarrow> 'a stream" where
  "generate xs = yield_all xs Done"

text \<open>\<^verbatim>\<open>async for item in g: yield item\<close>\<close>

fun reyield :: "'a stream \<Rightarrow> 'a stream" where
  "reyield Done = Done"
| "reyield (Raise e) = Raise e"
| "reyield (Yield item g) = Yield item (reyield g)"

text \<open>\<^verbatim>\<open>async for item in g: yield f(item)\<close>\<close>

fun yield_each :: "('a \<Rightarrow> 'b) \<Rightarrow> 'a stream \<Rightarrow> 'b stream" where
  "yield_each f Done = Done"
| "yield_each f (Raise e) = Raise e"
| "yield_each f (Yield item g) = Yield (f item) (yield_each f g)"

text \<open>One loop over \<open>g\<close>, then the code after it: reached only when \<open>g\<close> returns.\<close>

fun and_then :: "'a stream \<Rightarrow> 'a stream \<Rightarrow> 'a stream" where
  "and_then Done h = h"
| "and_then (Raise e) h = Raise e"
| "and_then (Yield x g) h = Yield x (and_then g h)"

text \<open>\<^verbatim>\<open>[item async for item in input]\<close>\<close>

definition materialize :: "'a stream \<Rightarrow> error + 'a list" where
  "materialize input = (case outcome input of Some e \<Rightarrow> Inl e | None \<Rightarrow> Inr (yields input))"


section \<open>Stage composition (\<^verbatim>\<open>Pipeline.__ror__\<close>)\<close>

text \<open>
  A stage is its \<^verbatim>\<open>run\<close> method: from the input iterable and the metadata to the
  output iterable. \<^verbatim>\<open>first | second\<close> calls \<^verbatim>\<open>second.__ror__(first)\<close>, which builds
  the \<^verbatim>\<open>ComposedPipeline\<close>; its \<^verbatim>\<open>run\<close> is
  \<^verbatim>\<open>stream = first.run(input, metadata)\<close> and then the loop that yields again every
  item of \<^verbatim>\<open>second.run(stream, metadata)\<close>.
\<close>

definition ror ::
  "('b \<Rightarrow> 'm \<Rightarrow> 'c stream) \<Rightarrow> ('a \<Rightarrow> 'm \<Rightarrow> 'b) \<Rightarrow> ('a \<Rightarrow> 'm \<Rightarrow> 'c stream)" where
  "ror second_pipeline first_pipeline =
     (\<lambda>input metadata.
        let stream = first_pipeline input metadata
        in reyield (second_pipeline stream metadata))"


section \<open>Storage (\<^verbatim>\<open>app/storage/cookie_fun.py\<close>)\<close>

record HistoricAgentRecord =
  har_id :: int
  har_ingestion_run_id :: int
  agent_name :: string
  har_created_at :: int
  data :: json

record BatchAnalysisRecord =
  bar_id :: int
  bar_ingestion_run_id :: int
  input_agent_ids :: string
  bar_created_at :: int
  bar_analysis_type :: string
  analysis :: string
  top_agent_ids :: "int list"
  meta :: dict

text \<open>Python's \<^verbatim>\<open>str\<close> on an integer: decimal digits, with a minus sign when negative.\<close>

definition digit_char :: "nat \<Rightarrow> char" where
  "digit_char d = ''0123456789'' ! d"

fun digits :: "nat \<Rightarrow> string" where
  "digits n = (if n < 10 then [digit_char n] else digits (n div 10) @ [digit_char (n mod 10)])"

definition str :: "int \<Rightarrow> string" where
  "str i = (if i < 0 then CHR ''-'' # digits (nat (- i)) else digits (nat i))"

text \<open>\<^verbatim>\<open>sep.join(xs)\<close>\<close>

fun join :: "string \<Rightarrow> string list \<Rightarrow> string" where
  "join sep [] = []"
| "join sep [x] = x"
| "join sep (x # y # ys) = x @ sep @ join sep (y # ys)"

text \<open>\<^verbatim>\<open>",".join([str(id) for id in sorted(agent_ids)])\<close>\<close>

definition serialize_agent_ids :: "int list \<Rightarrow> string" where
  "serialize_agent_ids agent_ids = join '','' (map str (sort agent_ids))"

text \<open>
  \<^verbatim>\<open>BatchAnalysisRecord.query\<close>: the rows of the table that match the three columns,
  ordered by \<^verbatim>\<open>created_at\<close> descending, and the first of them. SQL leaves the order
  of rows with equal \<^verbatim>\<open>created_at\<close> open; here they stay in table order.
\<close>

definition query ::
  "BatchAnalysisRecord list \<Rightarrow> string \<Rightarrow> int \<Rightarrow> string \<Rightarrow> BatchAnalysisRecord option" where
  "query table atype run_id ids =
     (case sort_key (\<lambda>r. - bar_created_at r)
             (filter (\<lambda>r. bar_ingestion_run_id r = run_id \<and> input_agent_ids r = ids
                           \<and> bar_analysis_type r = atype) table) of
        [] \<Rightarrow> None
      | r # _ \<Rightarrow> Some r)"


section \<open>The state of a run\<close>

text \<open>
  What the standard output receives: the two \<^verbatim>\<open>print\<close> calls of the pipelines, with
  the numbers they format.
\<close>

datatype line =
    RunningPipeline int nat
  | RunningBatch nat nat nat

text \<open>The calls made to the two collaborators, with their arguments.\<close>

datatype call =
    Analyze "json list"
  | SelectTop "HistoricAgentRecord list" string

text \<open>
  The world outside the engine: the clock of the database (\<^verbatim>\<open>func.now()\<close>); the
  choices of the event loop, which are the order in which it resumes the tasks of the
  chunk that starts at a given index (positions in the chunk, one entry for each
  resumption) and the order in which \<^verbatim>\<open>asyncio.as_completed\<close> hands out the ended
  tasks (a rank for each); and whatever else the collaborators read and change.
\<close>

record world =
  clock :: int
  schedule :: "nat \<Rightarrow> nat list"
  rank :: "error + BatchAnalysisRecord \<Rightarrow> nat"

record 'z state =
  heap :: "addr \<Rightarrow> dict"
  next_addr :: addr
  db :: "BatchAnalysisRecord list"
  stdout :: "line list"
  calls :: "call list"
  world :: "'z world_scheme"

text \<open>A dictionary display \<^verbatim>\<open>{...}\<close> builds a new object.\<close>

definition alloc :: "dict \<Rightarrow> 'z state \<Rightarrow> addr \<times> 'z state" where
  "alloc d s = (next_addr s, s\<lparr>heap := (heap s)(next_addr s := d), next_addr := Suc (next_addr s)\<rparr>)"

definition print :: "line \<Rightarrow> 'z state \<Rightarrow> 'z state" where
  "print l s = s\<lparr>stdout := stdout s @ [l]\<rparr>"

text \<open>
  \<^verbatim>\<open>session.add(record); session.commit(); session.refresh(record)\<close>: the row gets the
  next primary key (the largest in the table plus one) and the time of the database,
  and the dictionary behind \<^verbatim>\<open>meta\<close> is written out as it is at that moment.
\<close>

definition insert_record :: "BatchAnalysisRecord \<Rightarrow> 'z state \<Rightarrow> BatchAnalysisRecord \<times> 'z state" where
  "insert_record r s =
     (let row = r\<lparr>bar_id := foldr max (map bar_id (db s)) 0 + 1,
                  bar_created_at := clock (world s)\<rparr>
      in (row, s\<lparr>db := db s @ [row]\<rparr>))"


section \<open>The batching stage (\<^verbatim>\<open>CookieFunBatchedAnalysisPipeline\<close>)\<close>

text \<open>
  The two collaborators are asynchronous calls to the outside: they take the world,
  change it, and return a text (a list of ids), or raise: an exception with a message,
  or a cancellation. The filter is a function of the record.
\<close>

datatype fault = Failure string | Cancellation

fun raised :: "fault \<Rightarrow> error" where
  "raised (Failure msg) = CollaboratorFailure msg"
| "raised Cancellation = CancelledError"

record 'z CookieFunBatchedAnalysisPipeline =
  analysis_type :: string
  agent :: "json list \<Rightarrow> 'z world_scheme \<Rightarrow> (fault + string) \<times> 'z world_scheme"
  identify_top_agents ::
    "HistoricAgentRecord list \<Rightarrow> string \<Rightarrow> 'z world_scheme \<Rightarrow> (fault + int list) \<times> 'z world_scheme"
  filter_agents :: "HistoricAgentRecord \<Rightarrow> bool"
  ignore_cached :: bool
  batch_size :: int
  max_batches :: int
  concurrency :: int
  extra_metadata :: dict

text \<open>
  \<^verbatim>\<open>_run_agent\<close>, the work unit of one batch, awaited on its own from its first line
  to its last. A cached record is returned only when \<^verbatim>\<open>ignore_cached\<close> is off;
  otherwise the two collaborators run, one after the other, and the new record is
  inserted. The database itself does not fail here, and \<^verbatim>\<open>eagerly_load_all\<close>, which
  only reads the relations of the record, is left out.
\<close>

definition run_agent ::
  "'z CookieFunBatchedAnalysisPipeline \<Rightarrow> HistoricAgentRecord list \<Rightarrow> addr \<Rightarrow> 'z state
     \<Rightarrow> (error + BatchAnalysisRecord) \<times> 'z state" where
  "run_agent P batch metadata s =
     (case batch of
        [] \<Rightarrow> (Inl BatchIsEmpty, s)
      | first # _ \<Rightarrow>
          let run_id = har_ingestion_run_id first;
              ids = serialize_agent_ids (map har_id batch);
              cached = query (db s) (analysis_type P) run_id ids
          in if cached \<noteq> None \<and> \<not> ignore_cached P then (Inr (the cached), s)
             else
               (case agent P (map data batch) (world s) of
                  (a, w1) \<Rightarrow>
                    let s1 = s\<lparr>calls := calls s @ [Analyze (map data batch)], world := w1\<rparr>
                    in (case a of
                          Inl f \<Rightarrow> (Inl (raised f), s1)
                        | Inr analysis_text \<Rightarrow>
                            (case identify_top_agents P batch analysis_text (world s1) of
                               (t, w2) \<Rightarrow>
                                 let s2 = s1\<lparr>calls := calls s1 @ [SelectTop batch analysis_text],
                                              world := w2\<rparr>
                                 in (case t of
                                       Inl f \<Rightarrow> (Inl (raised f), s2)
                                     | Inr top_ids \<Rightarrow>
                                         (case insert_record
                                                 \<lparr>bar_id = 0, bar_ingestion_run_id = run_id,
                                                  input_agent_ids = ids, bar_created_at = 0,
                                                  bar_analysis_type = analysis_type P,
                                                  analysis = analysis_text, top_agent_ids = top_ids,
                                                  meta = heap s2 metadata\<rparr> s2 of
                                            (row, s3) \<Rightarrow> (Inr row, s3)))))))"

text \<open>
  Inside a task group the work units of a chunk run as tasks, and a task gives way to
  the others wherever it awaits a collaborator. A task is therefore the work unit cut
  at its two \<^verbatim>\<open>await\<close>s: created; started and awaiting the analysis, holding the
  local variables \<^verbatim>\<open>batch\<close>, \<^verbatim>\<open>run_id\<close> and \<^verbatim>\<open>input_agent_ids\<close>; awaiting the selection,
  holding the analysis as well; ended by \<^verbatim>\<open>return\<close> or by an exception.
\<close>

datatype task =
    Created "HistoricAgentRecord list"
  | AwaitingAgent "HistoricAgentRecord list" int string
  | AwaitingTopAgents "HistoricAgentRecord list" int string string
  | Returned BatchAnalysisRecord
  | Raised error

fun ended :: "task \<Rightarrow> bool" where
  "ended (Returned r) = True"
| "ended (Raised e) = True"
| "ended t = False"

text \<open>The resumptions that a task needs at most to come to its end.\<close>

fun resumptions_left :: "task \<Rightarrow> nat" where
  "resumptions_left (Created batch) = 3"
| "resumptions_left (AwaitingAgent batch run_id ids) = 2"
| "resumptions_left (AwaitingTopAgents batch run_id ids analysis_text) = 1"
| "resumptions_left (Returned r) = 0"
| "resumptions_left (Raised e) = 0"

text \<open>
  One resumption of a task: the code of \<^verbatim>\<open>_run_agent\<close> from where the task stands to
  its next \<^verbatim>\<open>await\<close> or to its end. The cache is read when the task starts and the
  record is inserted when the selection has arrived. A collaborator counts as called
  when the task reaches its \<^verbatim>\<open>await\<close>, and acts on the world when it answers.
\<close>

fun task_step ::
  "'z CookieFunBatchedAnalysisPipeline \<Rightarrow> addr \<Rightarrow> task \<Rightarrow> 'z state \<Rightarrow> task \<times> 'z state" where
  "task_step P metadata (Created batch) s =
     (case batch of
        [] \<Rightarrow> (Raised BatchIsEmpty, s)
      | first # _ \<Rightarrow>
          let run_id = har_ingestion_run_id first;
              ids = serialize_agent_ids (map har_id batch);
              cached = query (db s) (analysis_type P) run_id ids
          in if cached \<noteq> None \<and> \<not> ignore_cached P then (Returned (the cached), s)
             else (AwaitingAgent batch run_id ids,
                   s\<lparr>calls := calls s @ [Analyze (map data batch)]\<rparr>))"
| "task_step P metadata (AwaitingAgent batch run_id ids) s =
     (case agent P (map data batch) (world s) of
        (a, w1) \<Rightarrow>
          let s1 = s\<lparr>world := w1\<rparr>
          in (case a of
                Inl f \<Rightarrow> (Raised (raised f), s1)
              | Inr analysis_text \<Rightarrow>
                  (AwaitingTopAgents batch run_id ids analysis_text,
                   s1\<lparr>calls := calls s1 @ [SelectTop batch analysis_text]\<rparr>)))"
| "task_step P metadata (AwaitingTopAgents batch run_id ids analysis_text) s =
     (case identify_top_agents P batch analysis_text (world s) of
        (t, w2) \<Rightarrow>
          let s2 = s\<lparr>world := w2\<rparr>
          in (case t of
                Inl f \<Rightarrow> (Raised (raised f), s2)
              | Inr top_ids \<Rightarrow>
                  (case insert_record
                          \<lparr>bar_id = 0, bar_ingestion_run_id = run_id,
                           input_agent_ids = ids, bar_created_at = 0,
                           bar_analysis_type = analysis_type P,
                           analysis = analysis_text, top_agent_ids = top_ids,
                           meta = heap s2 metadata\<rparr> s2 of
                     (row, s3) \<Rightarrow> (Returned row, s3))))"
| "task_step P metadata (Returned r) s = (Returned r, s)"
| "task_step P metadata (Raised e) s = (Raised e, s)"

text \<open>
  The task group: its tasks, the exceptions it has collected, and the state. When a
  task ends with an exception that is not a cancellation, the group collects it; a task
  that ends with a cancellation is not counted.
\<close>

type_synonym 'z task_group = "task list \<times> error list \<times> 'z state"

fun collected :: "task \<Rightarrow> error list" where
  "collected (Raised e) = (if e = CancelledError then [] else [e])"
| "collected t = []"

fun resume :: "'z CookieFunBatchedAnalysisPipeline \<Rightarrow> addr \<Rightarrow> nat \<Rightarrow> 'z task_group \<Rightarrow> 'z task_group" where
  "resume P metadata i (tasks, errors, s) =
     (if i < length tasks \<and> \<not> ended (tasks ! i) then
        (case task_step P metadata (tasks ! i) s of
           (t, s') \<Rightarrow> (tasks[i := t], errors @ collected t, s'))
      else (tasks, errors, s))"

text \<open>
  The resumptions that the event loop makes, in its order. A task whose collaborator
  answers at once is resumed again before the others. After a failure the group
  cancels the tasks that have not ended; a task that was already due, or whose
  collaborator holds on to its work, still runs, so the order may go on after a
  failure, and another task may fail as well.
\<close>

fun run_schedule ::
  "'z CookieFunBatchedAnalysisPipeline \<Rightarrow> addr \<Rightarrow> nat list \<Rightarrow> 'z task_group \<Rightarrow> 'z task_group" where
  "run_schedule P metadata [] g = g"
| "run_schedule P metadata (i # order) g = run_schedule P metadata order (resume P metadata i g)"

text \<open>
  Where the given order ends, the group goes on by turns for as long as it has
  collected no exception, until every task has ended: it waits for all its tasks. Once
  it has collected one, the tasks that have not ended stay cancelled.
\<close>

fun run_to_end ::
  "'z CookieFunBatchedAnalysisPipeline \<Rightarrow> addr \<Rightarrow> nat list \<Rightarrow> 'z task_group \<Rightarrow> 'z task_group" where
  "run_to_end P metadata [] g = g"
| "run_to_end P metadata (i # order) (tasks, errors, s) =
     (if errors \<noteq> [] then (tasks, errors, s)
      else run_to_end P metadata order (resume P metadata i (tasks, errors, s)))"

definition by_turns :: "nat \<Rightarrow> nat list" where
  "by_turns n = [0..<n] @ [0..<n] @ [0..<n]"

text \<open>What awaiting an ended task gives: its result, or its exception.\<close>

fun result :: "task \<Rightarrow> error + BatchAnalysisRecord" where
  "result (Returned r) = Inr r"
| "result (Raised e) = Inl e"
| "result t = Inl CancelledError"

text \<open>
  The tasks of one chunk under \<^verbatim>\<open>async with asyncio.TaskGroup()\<close>: every work unit of
  the chunk becomes a task, and the tasks run in the order of the event loop until
  the group has nothing left to wait for.
\<close>

definition TaskGroup ::
  "'z CookieFunBatchedAnalysisPipeline \<Rightarrow> HistoricAgentRecord list list \<Rightarrow> addr \<Rightarrow> nat list \<Rightarrow> 'z state
     \<Rightarrow> 'z task_group" where
  "TaskGroup P batch_chunk metadata order s =
     run_to_end P metadata (by_turns (length batch_chunk))
       (run_schedule P metadata order (map Created batch_chunk, [], s))"

text \<open>
  Leaving the \<^verbatim>\<open>async with\<close> block: with the exception group of the collected
  exceptions, or, when there is none, with the tasks, all of them ended.
\<close>

definition run_wave ::
  "'z CookieFunBatchedAnalysisPipeline \<Rightarrow> HistoricAgentRecord list list \<Rightarrow> addr \<Rightarrow> nat list \<Rightarrow> 'z state
     \<Rightarrow> (error + task list) \<times> 'z state" where
  "run_wave P batch_chunk metadata order s =
     (case TaskGroup P batch_chunk metadata order s of
        (tasks, errors, s') \<Rightarrow>
          if errors \<noteq> [] then (Inl (ExceptionGroup errors), s') else (Inr tasks, s'))"

text \<open>
  \<^verbatim>\<open>for task in asyncio.as_completed(tasks): yield await task\<close>, followed by what the
  generator does next: the first task that ended with an exception ends the generator.
\<close>

fun await_each :: "(error + 'a) list \<Rightarrow> 'a stream \<Rightarrow> 'a stream" where
  "await_each [] g = g"
| "await_each (Inr r # ts) g = Yield r (await_each ts g)"
| "await_each (Inl e # ts) g = Raise e"

text \<open>
  The loop of \<^verbatim>\<open>_run_batches\<close> from \<open>index\<close> on, for a positive step: print, run the
  chunk \<^verbatim>\<open>batches[index:index + concurrency]\<close> in a task group, and only when the
  group has been left without an exception yield the results of its tasks, in the
  order of \<^verbatim>\<open>as_completed\<close>; the next chunk follows when all of them were results.
\<close>

function run_batches_from ::
  "'z CookieFunBatchedAnalysisPipeline \<Rightarrow> HistoricAgentRecord list list \<Rightarrow> nat \<Rightarrow> addr \<Rightarrow> 'z state
     \<Rightarrow> BatchAnalysisRecord stream \<times> 'z state" where
  "run_batches_from P batches index metadata s =
     (if index < length batches \<and> 0 < concurrency P then
        (let s1 = print (RunningBatch index (length batches) (length (batches ! index))) s;
             batch_chunk = take (nat (concurrency P)) (drop index batches)
         in case run_wave P batch_chunk metadata (schedule (world s1) index) s1 of
              (Inl e, s2) \<Rightarrow> (Raise e, s2)
            | (Inr tasks, s2) \<Rightarrow>
                (let completed = sort_key (rank (world s2)) (map result tasks)
                 in if list_ex isl completed then (await_each completed Done, s2)
                    else
                      (case run_batches_from P batches (index + nat (concurrency P)) metadata s2 of
                         (later, s3) \<Rightarrow> (await_each completed later, s3))))
      else (Done, s))"
  by pat_completeness auto
termination
  by (relation "measure (\<lambda>(P, batches, index, metadata, s). length batches - index)") auto

text \<open>
  \<^verbatim>\<open>_run_batches\<close>: \<^verbatim>\<open>range(0, len(batches), self.concurrency)\<close> raises for a step of
  zero and is empty for a negative one.
\<close>

definition run_batches ::
  "'z CookieFunBatchedAnalysisPipeline \<Rightarrow> HistoricAgentRecord list list \<Rightarrow> addr \<Rightarrow> 'z state
     \<Rightarrow> BatchAnalysisRecord stream \<times> 'z state" where
  "run_batches P batches metadata s =
     (if concurrency P = 0 then (Raise RangeStepZero, s)
      else if concurrency P < 0 then (Done, s)
      else run_batches_from P batches 0 metadata s)"

text \<open>
  The \<^verbatim>\<open>async for record in input\<close> loop of \<^verbatim>\<open>run\<close>, with its two variables. It
  returns them together with the part of the input it has not consumed: all of the
  rest after a \<^verbatim>\<open>break\<close>, nothing when the input is exhausted.
\<close>

fun batch_loop ::
  "'z CookieFunBatchedAnalysisPipeline \<Rightarrow> HistoricAgentRecord stream
     \<Rightarrow> HistoricAgentRecord list \<Rightarrow> HistoricAgentRecord list list
     \<Rightarrow> error + (HistoricAgentRecord list \<times> HistoricAgentRecord list list \<times> HistoricAgentRecord stream)" where
  "batch_loop P Done current_batch batches = Inr (current_batch, batches, Done)"
| "batch_loop P (Raise e) current_batch batches = Inl e"
| "batch_loop P (Yield record rest) current_batch batches =
     (if \<not> filter_agents P record then batch_loop P rest current_batch batches
      else if int (length (current_batch @ [record])) \<ge> batch_size P then
        (if int (length (batches @ [current_batch @ [record]])) \<ge> max_batches P
         then Inr ([], batches @ [current_batch @ [record]], rest)
         else batch_loop P rest [] (batches @ [current_batch @ [record]]))
      else
        (if int (length batches) \<ge> max_batches P
         then Inr (current_batch @ [record], batches, rest)
         else batch_loop P rest (current_batch @ [record]) batches))"

text \<open>The loop from the empty variables, and the \<^verbatim>\<open>if current_batch:\<close> after it.\<close>

definition form_batches ::
  "'z CookieFunBatchedAnalysisPipeline \<Rightarrow> HistoricAgentRecord stream
     \<Rightarrow> error + (HistoricAgentRecord list list \<times> HistoricAgentRecord stream)" where
  "form_batches P input =
     (case batch_loop P input [] [] of
        Inl e \<Rightarrow> Inl e
      | Inr (current_batch, batches, rest) \<Rightarrow>
          Inr (if current_batch \<noteq> [] then batches @ [current_batch] else batches, rest))"

text \<open>The dictionary that \<^verbatim>\<open>run\<close> builds from its defaults, the extra metadata and the caller's.\<close>

definition merged_metadata :: "'z CookieFunBatchedAnalysisPipeline \<Rightarrow> dict \<Rightarrow> dict" where
  "merged_metadata P caller =
     [''batch_size'' \<mapsto> JInt (batch_size P),
      ''max_batches'' \<mapsto> JInt (max_batches P),
      ''concurrency'' \<mapsto> JInt (concurrency P),
      ''ignore_cached'' \<mapsto> JBool (ignore_cached P)]
     ++ extra_metadata P ++ caller"

text \<open>\<^verbatim>\<open>CookieFunBatchedAnalysisPipeline.run\<close>\<close>

definition Batched_run ::
  "'z CookieFunBatchedAnalysisPipeline \<Rightarrow> HistoricAgentRecord stream \<Rightarrow> addr \<Rightarrow> 'z state
     \<Rightarrow> BatchAnalysisRecord stream \<times> 'z state" where
  "Batched_run P input metadata s =
     (case alloc (merged_metadata P (heap s metadata)) s of
        (metadata', s1) \<Rightarrow>
          (case form_batches P input of
             Inl e \<Rightarrow> (Raise e, s1)
           | Inr (batches, rest) \<Rightarrow>
               (case run_batches P batches metadata' s1 of
                  (records, s2) \<Rightarrow> (reyield records, s2))))"


section \<open>The recursion stage (\<^verbatim>\<open>RecursionPipeline\<close>)\<close>

text \<open>
  What the stage yields is a Python tuple \<^verbatim>\<open>(item, list)\<close>, whose first component is
  either a result of the inner stage or a tuple again.
\<close>

datatype ('o, 'i) yielded = Item 'o | Tuple "('o, 'i) yielded" "'i list"

text \<open>
  The inner stage is its \<^verbatim>\<open>run\<close>, drained: from the input, the address of the
  metadata dictionary and the state to what it yields and the state it leaves.
  Mapper and stop predicate are functions of the result list.
\<close>

record ('i, 'o, 'z) RecursionPipeline =
  pipeline :: "'i stream \<Rightarrow> addr \<Rightarrow> 'z state \<Rightarrow> 'o stream \<times> 'z state"
  mapper :: "'o list \<Rightarrow> 'i list"
  stopper :: "'o list \<Rightarrow> bool"
  max_depth :: int

text \<open>\<^verbatim>\<open>RecursionPipeline._run\<close>\<close>

function Recursion_run' ::
  "('i, 'o, 'z) RecursionPipeline \<Rightarrow> 'i stream \<Rightarrow> addr \<Rightarrow> int \<Rightarrow> 'z state
     \<Rightarrow> ('o, 'i) yielded stream \<times> 'z state" where
  "Recursion_run' R input metadata depth s =
     (if depth \<ge> max_depth R then (Raise (MaxDepthReached (max_depth R)), s)
      else
        (case materialize input of
           Inl e \<Rightarrow> (Raise e, s)
         | Inr input_list \<Rightarrow>
             (case alloc ((heap s metadata)(''recursion_depth'' \<mapsto> JInt depth)) s of
                (metadata', s1) \<Rightarrow>
                  (case pipeline R (generate input_list) metadata'
                          (print (RunningPipeline depth (length input_list)) s1) of
                     (inner, s2) \<Rightarrow>
                       let results = yields inner;
                           tagged = yield_each (\<lambda>item. Tuple (Item item) input_list) inner
                       in if outcome inner \<noteq> None then (tagged, s2)
                          else if stopper R results then (tagged, s2)
                          else
                            (let sub_input_list = mapper R results
                             in case Recursion_run' R (generate sub_input_list) metadata' (depth + 1) s2 of
                                  (sub, s3) \<Rightarrow>
                                    (and_then tagged
                                       (yield_each (\<lambda>item. Tuple item sub_input_list) sub), s3))))))"
  by pat_completeness auto
termination
  by (relation "measure (\<lambda>(R, input, metadata, depth, s). nat (max_depth R - depth))") auto

text \<open>\<^verbatim>\<open>RecursionPipeline.run\<close>\<close>

definition Recursion_run ::
  "('i, 'o, 'z) RecursionPipeline \<Rightarrow> 'i stream \<Rightarrow> addr \<Rightarrow> 'z state
     \<Rightarrow> ('o, 'i) yielded stream \<times> 'z state" where
  "Recursion_run R input metadata s =
     (case Recursion_run' R input metadata 0 s of (items, s') \<Rightarrow> (reyield items, s'))"

section \<open>Example objects\<close>

text \<open>
  Records, collaborators and pipelines for the concrete runs below: a batching stage
  that accepts every record and whose collaborators answer, one whose analysis
  collaborator fails on the listed payloads and one whose analysis collaborator is
  cancelled on them, and a recursion stage around an inner stage that hands its input
  on.
\<close>

definition agent_record :: "int \<Rightarrow> HistoricAgentRecord" where
  "agent_record i =
     \<lparr>har_id = i, har_ingestion_run_id = 1, agent_name = ''agent'', har_created_at = 0,
      data = str i\<rparr>"

definition quiet_world :: world where
  "quiet_world = \<lparr>clock = 0, schedule = (\<lambda>index. []), rank = (\<lambda>t. 0)\<rparr>"

definition empty_state :: "unit state" where
  "empty_state =
     \<lparr>heap = (\<lambda>a. Map.empty), next_addr = 1, db = [], stdout = [], calls = [],
      world = quiet_world\<rparr>"

definition accept_all :: "int \<Rightarrow> int \<Rightarrow> int \<Rightarrow> unit CookieFunBatchedAnalysisPipeline" where
  "accept_all bsize cap width =
     \<lparr>analysis_type = ''unfiltered'',
      agent = (\<lambda>payloads w. (Inr ''analysis'', w)),
      identify_top_agents = (\<lambda>batch text w. (Inr (map har_id (take 1 batch)), w)),
      filter_agents = (\<lambda>record. True),
      ignore_cached = False,
      batch_size = bsize, max_batches = cap, concurrency = width,
      extra_metadata = Map.empty\<rparr>"

definition failing_on :: "string list \<Rightarrow> int \<Rightarrow> int \<Rightarrow> int \<Rightarrow> unit CookieFunBatchedAnalysisPipeline" where
  "failing_on bad bsize cap width =
     (accept_all bsize cap width)
       \<lparr>agent := (\<lambda>payloads w.
                   (if set payloads \<inter> set bad \<noteq> {} then Inl (Failure ''timeout'') else Inr ''analysis'', w))\<rparr>"


definition echo_stage :: "nat stream \<Rightarrow> addr \<Rightarrow> unit state \<Rightarrow> nat stream \<times> unit state" where
  "echo_stage input metadata s = (input, s)"

definition echo_recursion :: "int \<Rightarrow> (nat, nat, unit) RecursionPipeline" where
  "echo_recursion limit =
     \<lparr>pipeline = echo_stage, mapper = (\<lambda>results. take 1 results),
      stopper = (\<lambda>results. length results \<le> 1), max_depth = limit\<rparr>"

definition never_stopping :: "int \<Rightarrow> (nat, nat, unit) RecursionPipeline" where
  "never_stopping limit = (echo_recursion limit)\<lparr>stopper := (\<lambda>results. False)\<rparr>"

text \<open>
  The artifact that the accepting stage creates for the batch of the records 1 and 2 in
  the empty state, and the state after that.
\<close>

definition first_artifact :: BatchAnalysisRecord where
  "first_artifact =
     \<lparr>bar_id = 1, bar_ingestion_run_id = 1, input_agent_ids = ''1,2'', bar_created_at = 0,
      bar_analysis_type = ''unfiltered'', analysis = ''analysis'', top_agent_ids = [1],
      meta = Map.empty\<rparr>"

definition after_first_run :: "unit state" where
  "after_first_run =
     \<lparr>heap = (\<lambda>a. Map.empty), next_addr = 1, db = [first_artifact], stdout = [],
      calls = [Analyze [''1'', ''2''], SelectTop [agent_record 1, agent_record 2] ''analysis''],
      world = quiet_world\<rparr>"

text \<open>
  The recursion stage of the command line around the accepting batching stage: the
  mapper resolves the selected ids to records, the stop predicate fires on at most one
  result. An inner stage that overwrites the dictionary it is handed. A state in which
  the caller holds a metadata dictionary at address 0.
\<close>

definition analysis_recursion ::
  "(HistoricAgentRecord, BatchAnalysisRecord, unit) RecursionPipeline" where
  "analysis_recursion =
     \<lparr>pipeline = Batched_run (accept_all 2 5 2),
      mapper = (\<lambda>results. map agent_record (concat (map top_agent_ids results))),
      stopper = (\<lambda>results. length results \<le> 1),
      max_depth = 8\<rparr>"

definition scribbling_stage :: "nat stream \<Rightarrow> addr \<Rightarrow> unit state \<Rightarrow> nat stream \<times> unit state" where
  "scribbling_stage input metadata s = (input, s\<lparr>heap := (heap s)(metadata := Map.empty)\<rparr>)"

definition scribbling_recursion :: "(nat, nat, unit) RecursionPipeline" where
  "scribbling_recursion = (echo_recursion 10)\<lparr>pipeline := scribbling_stage\<rparr>"

definition caller_state :: "unit state" where
  "caller_state = empty_state\<lparr>heap := (\<lambda>a. Map.empty)(0 := [''caller'' \<mapsto> JStr ''cli''])\<rparr>"



text \<open>
  A state whose event loop starts the three tasks of a chunk, resumes each of them
  once more, and then the first one again.
\<close>

definition all_at_once :: "unit state" where
  "all_at_once = empty_state\<lparr>world := quiet_world\<lparr>schedule := (\<lambda>index. [0, 1, 2, 0, 1, 2, 0])\<rparr>\<rparr>"

declare digits.simps [simp del]
declare run_batches_from.simps [simp del]
declare Recursion_run'.simps [simp del]

section \<open>The fingerprint\<close>

text \<open>
  Decimal numerals determine the number, hold no comma and are not empty; a
  comma-separated line therefore determines its fields.
\<close>

lemma digit_char_inj: "a < 10 \<Longrightarrow> b < 10 \<Longrightarrow> digit_char a = digit_char b \<Longrightarrow> a = b"
proof -
  assume a: "a < 10" and b: "b < 10" and e: "digit_char a = digit_char b"
  have d: "distinct ''0123456789''" by simp
  have "a < length ''0123456789''" "b < length ''0123456789''" using a b by simp_all
  with d e show "a = b" unfolding digit_char_def by (simp only: nth_eq_iff_index_eq)
qed

lemma digit_char_in: "d < 10 \<Longrightarrow> digit_char d \<in> set ''0123456789''"
  unfolding digit_char_def by (rule nth_mem) simp

lemma digit_char_plain: "d < 10 \<Longrightarrow> digit_char d \<noteq> CHR '','' \<and> digit_char d \<noteq> CHR ''-''"
  using digit_char_in [of d] by auto

lemma digits_lt10: "n < 10 \<Longrightarrow> digits n = [digit_char n]"
  by (subst digits.simps) simp

lemma digits_ge10: "\<not> n < 10 \<Longrightarrow> digits n = digits (n div 10) @ [digit_char (n mod 10)]"
  by (subst digits.simps) simp

lemma digits_nonempty: "digits n \<noteq> []"
proof (cases "n < 10")
  case True
  then show ?thesis by (simp only: digits_lt10) simp
next
  case False
  then have "digits n = digits (n div 10) @ [digit_char (n mod 10)]" by (rule digits_ge10)
  then show ?thesis by (simp only:) simp
qed

lemma digits_plain: "c \<in> set (digits n) \<Longrightarrow> c \<noteq> CHR '','' \<and> c \<noteq> CHR ''-''"
proof (induction n rule: digits.induct)
  case (1 n)
  show ?case
  proof (cases "n < 10")
    case True
    with "1.prems" have "c = digit_char n" by (simp add: digits_lt10)
    moreover from True have "digit_char n \<noteq> CHR '','' \<and> digit_char n \<noteq> CHR ''-''"
      by (rule digit_char_plain)
    ultimately show ?thesis by simp
  next
    case False
    then have eq: "digits n = digits (n div 10) @ [digit_char (n mod 10)]"
      by (rule digits_ge10)
    from "1.prems" have "c \<in> set (digits (n div 10)) \<or> c = digit_char (n mod 10)"
      unfolding eq by auto
    then show ?thesis
    proof
      assume "c \<in> set (digits (n div 10))"
      with False show ?thesis by (rule "1.IH")
    next
      assume "c = digit_char (n mod 10)"
      moreover have "n mod 10 < 10" by simp
      then have "digit_char (n mod 10) \<noteq> CHR '','' \<and> digit_char (n mod 10) \<noteq> CHR ''-''"
        by (rule digit_char_plain)
      ultimately show ?thesis by simp
    qed
  qed
qed

lemma digits_inj: "digits m = digits n \<Longrightarrow> m = n"
proof (induction m arbitrary: n rule: digits.induct)
  case (1 m)
  show ?case
  proof (cases "m < 10")
    case mlt: True
    then have dm: "digits m = [digit_char m]" by (simp add: digits_lt10)
    show ?thesis
    proof (cases "n < 10")
      case True
      then have "digits n = [digit_char n]" by (rule digits_lt10)
      with dm "1.prems" have "digit_char m = digit_char n" by simp
      with mlt True show ?thesis by (rule digit_char_inj)
    next
      case False
      then have "digits n = digits (n div 10) @ [digit_char (n mod 10)]"
        by (rule digits_ge10)
      with dm "1.prems" have "digits (n div 10) = []" by simp
      with digits_nonempty show ?thesis by blast
    qed
  next
    case mge: False
    then have dm: "digits m = digits (m div 10) @ [digit_char (m mod 10)]"
      by (rule digits_ge10)
    show ?thesis
    proof (cases "n < 10")
      case True
      then have "digits n = [digit_char n]" by (rule digits_lt10)
      with dm "1.prems" have "digits (m div 10) = []" by simp
      with digits_nonempty show ?thesis by blast
    next
      case False
      then have "digits n = digits (n div 10) @ [digit_char (n mod 10)]"
        by (rule digits_ge10)
      with dm "1.prems" have e1: "digits (m div 10) = digits (n div 10)"
        and e2: "digit_char (m mod 10) = digit_char (n mod 10)" by simp_all
      from "1.IH" [OF mge e1] have q: "m div 10 = n div 10" .
      have "m mod 10 = n mod 10" using e2 by (intro digit_char_inj) simp_all
      with q show ?thesis by (metis div_mult_mod_eq)
    qed
  qed
qed

lemma str_nonempty: "str i \<noteq> []"
  by (simp add: str_def digits_nonempty)

lemma str_no_comma: "CHR '','' \<notin> set (str i)"
  using digits_plain by (auto simp: str_def)

lemma digits_no_minus: "hd (digits n) \<noteq> CHR ''-''"
  using digits_plain [of "hd (digits n)" n] digits_nonempty [of n] by simp

lemma str_inj: "str i = str j \<Longrightarrow> i = j"
proof -
  assume e: "str i = str j"
  show "i = j"
  proof (cases "i < 0")
    case True
    show ?thesis
    proof (cases "j < 0")
      case jt: True
      with True e have "digits (nat (- i)) = digits (nat (- j))" by (simp add: str_def)
      then have "nat (- i) = nat (- j)" by (rule digits_inj)
      with True jt show ?thesis by simp
    next
      case False
      with True e have "CHR ''-'' # digits (nat (- i)) = digits (nat j)" by (simp add: str_def)
      then have "hd (digits (nat j)) = CHR ''-''" by (metis list.sel(1))
      with digits_no_minus show ?thesis by blast
    qed
  next
    case False
    show ?thesis
    proof (cases "j < 0")
      case True
      with False e have "digits (nat i) = CHR ''-'' # digits (nat (- j))" by (simp add: str_def)
      then have "hd (digits (nat i)) = CHR ''-''" by (metis list.sel(1))
      with digits_no_minus show ?thesis by blast
    next
      case jf: False
      with False e have "digits (nat i) = digits (nat j)" by (simp add: str_def)
      then have "nat i = nat j" by (rule digits_inj)
      with False jf show ?thesis by simp
    qed
  qed
qed

lemma takeWhile_upto: "c \<notin> set x \<Longrightarrow> takeWhile (\<lambda>d. d \<noteq> c) (x @ c # r) = x"
  by (induction x) auto

lemma takeWhile_whole: "c \<notin> set x \<Longrightarrow> takeWhile (\<lambda>d. d \<noteq> c) x = x"
  by (induction x) auto

lemma dropWhile_upto: "c \<notin> set x \<Longrightarrow> dropWhile (\<lambda>d. d \<noteq> c) (x @ c # r) = c # r"
  by (induction x) auto

lemma dropWhile_whole: "c \<notin> set x \<Longrightarrow> dropWhile (\<lambda>d. d \<noteq> c) x = []"
  by (induction x) auto

lemma join_first:
  "CHR '','' \<notin> set x \<Longrightarrow> takeWhile (\<lambda>c. c \<noteq> CHR '','') (join '','' (x # rest)) = x"
  by (cases rest) (simp_all add: takeWhile_upto takeWhile_whole)

lemma join_rest:
  "CHR '','' \<notin> set x \<Longrightarrow>
   dropWhile (\<lambda>c. c \<noteq> CHR '','') (join '','' (x # rest)) = (if rest = [] then [] else '','' @ join '','' rest)"
  by (cases rest) (simp_all add: dropWhile_upto dropWhile_whole)

lemma join_nonempty: "x \<noteq> [] \<Longrightarrow> join sep (x # rest) \<noteq> []"
  by (cases rest) simp_all

lemma join_inj:
  "\<forall>x \<in> set xs. x \<noteq> [] \<and> CHR '','' \<notin> set x \<Longrightarrow>
   \<forall>y \<in> set ys. y \<noteq> [] \<and> CHR '','' \<notin> set y \<Longrightarrow>
   join '','' xs = join '','' ys \<Longrightarrow> xs = ys"
proof (induction xs arbitrary: ys)
  case Nil
  show ?case
  proof (cases ys)
    case Nil
    then show ?thesis by simp
  next
    case (Cons y ys')
    with Nil.prems(2) have "y \<noteq> []" by simp
    then have "join '','' (y # ys') \<noteq> []" by (rule join_nonempty)
    with Nil.prems(3) Cons show ?thesis by simp
  qed
next
  case (Cons x xs)
  show ?case
  proof (cases ys)
    case Nil
    from Cons.prems(1) have "x \<noteq> []" by simp
    then have "join '','' (x # xs) \<noteq> []" by (rule join_nonempty)
    with Cons.prems(3) Nil show ?thesis by simp
  next
    case (Cons y ys')
    from Cons.prems(1) have cx: "CHR '','' \<notin> set x" by simp
    from Cons.prems(2) Cons have cy: "CHR '','' \<notin> set y" by simp
    from Cons.prems(3) Cons have e: "join '','' (x # xs) = join '','' (y # ys')" by simp
    have "x = y" using join_first [OF cx, of xs] join_first [OF cy, of ys'] e by simp
    have r: "(if xs = [] then [] else '','' @ join '','' xs) = (if ys' = [] then [] else '','' @ join '','' ys')"
      using join_rest [OF cx, of xs] join_rest [OF cy, of ys'] e by simp
    have "xs = ys'"
    proof (cases "xs = []")
      case True
      with r show ?thesis by (auto split: if_splits)
    next
      case False
      with r have "ys' \<noteq> []" and "join '','' xs = join '','' ys'" by (auto split: if_splits)
      with Cons.IH [of ys'] Cons.prems Cons show ?thesis by simp
    qed
    with \<open>x = y\<close> Cons show ?thesis by simp
  qed
qed

lemma serialize_agent_ids_eq_iff_mset:
  "serialize_agent_ids xs = serialize_agent_ids ys \<longleftrightarrow> mset xs = mset ys"
proof
  assume "serialize_agent_ids xs = serialize_agent_ids ys"
  then have "map str (sort xs) = map str (sort ys)"
    unfolding serialize_agent_ids_def
    by (intro join_inj) (auto simp: str_nonempty str_no_comma)
  then have "sort xs = sort ys"
    by (rule map_injective) (auto simp: inj_on_def dest: str_inj)
  then have "mset (sort xs) = mset (sort ys)" by simp
  then show "mset xs = mset ys" by simp
next
  assume "mset xs = mset ys"
  then have "sort xs = sort ys" by (intro properties_for_sort) simp_all
  then show "serialize_agent_ids xs = serialize_agent_ids ys"
    by (simp add: serialize_agent_ids_def)
qed

lemma serialize_agent_ids_example:
  "serialize_agent_ids [3, 1, 2] = ''1,2,3'' \<and> serialize_agent_ids [1, 2] = ''1,2''"
  by (simp add: serialize_agent_ids_def str_def digits_lt10 digit_char_def)

text \<open>
  Claim C4. Two lists of ids have the same fingerprint exactly when they hold the same
  ids with the same multiplicities: the fingerprint does not change under a
  permutation of the list, and lists that are not permutations of each other have
  different fingerprints. So \<^verbatim>\<open>[3,1,2]\<close> and \<^verbatim>\<open>[1,2,3]\<close> agree, and \<^verbatim>\<open>[1,2]\<close> and
  \<^verbatim>\<open>[1,2,3]\<close> differ.
\<close>

theorem fingerprint_permutation_invariant_and_injective:
  "(serialize_agent_ids xs = serialize_agent_ids ys \<longleftrightarrow> mset xs = mset ys)
   \<and> serialize_agent_ids [3, 1, 2] = serialize_agent_ids [1, 2, 3]
   \<and> serialize_agent_ids [1, 2] \<noteq> serialize_agent_ids [1, 2, 3]"
proof -
  have "mset [3, 1, 2 :: int] = mset [1, 2, 3]" by simp
  moreover have "mset [1, 2 :: int] \<noteq> mset [1, 2, 3]" by simp
  ultimately show ?thesis by (simp only: serialize_agent_ids_eq_iff_mset) simp
qed

section \<open>Batch formation\<close>

text \<open>
  While fewer than \<^verbatim>\<open>max_batches\<close> batches are sealed the loop goes on; the count
  grows by one at a time, and the check follows every seal, so the loop stops at the
  seal that reaches the cap, with an empty running batch.
\<close>

lemma batch_loop_cap:
  "int (length batches) < max_batches P \<Longrightarrow>
   batch_loop P input current_batch batches = Inr (c, bs, rest) \<Longrightarrow>
   int (length bs) \<le> max_batches P \<and> (int (length bs) = max_batches P \<longrightarrow> c = [])"
proof (induction input arbitrary: current_batch batches)
  case Done
  then show ?case by auto
next
  case (Raise e)
  then show ?case by simp
next
  case (Yield r g)
  show ?case
  proof (cases "filter_agents P r")
    case False
    with Yield.prems have "batch_loop P g current_batch batches = Inr (c, bs, rest)" by simp
    with Yield.IH Yield.prems(1) show ?thesis by blast
  next
    case accepted: True
    show ?thesis
    proof (cases "int (length (current_batch @ [r])) \<ge> batch_size P")
      case sealed: True
      show ?thesis
      proof (cases "int (length (batches @ [current_batch @ [r]])) \<ge> max_batches P")
        case True
        with accepted sealed Yield.prems(2)
        have "c = []" and "bs = batches @ [current_batch @ [r]]" by simp_all
        with Yield.prems(1) True show ?thesis by simp
      next
        case False
        with accepted sealed Yield.prems(2)
        have "batch_loop P g [] (batches @ [current_batch @ [r]]) = Inr (c, bs, rest)"
          by simp
        moreover from False have "int (length (batches @ [current_batch @ [r]])) < max_batches P"
          by simp
        ultimately show ?thesis using Yield.IH by blast
      qed
    next
      case open_batch: False
      from Yield.prems(1) have "\<not> int (length batches) \<ge> max_batches P" by simp
      with accepted open_batch Yield.prems(2)
      have "batch_loop P g (current_batch @ [r]) batches = Inr (c, bs, rest)"
        by simp
      with Yield.IH Yield.prems(1) show ?thesis by blast
    qed
  qed
qed

lemma batch_loop_undersized:
  "current_batch = [] \<or> int (length current_batch) < batch_size P \<Longrightarrow>
   batch_loop P input current_batch batches = Inr (c, bs, rest) \<Longrightarrow>
   c = [] \<or> int (length c) < batch_size P"
proof (induction input arbitrary: current_batch batches)
  case Done
  then show ?case by auto
next
  case (Raise e)
  then show ?case by simp
next
  case (Yield r g)
  show ?case
  proof (cases "filter_agents P r")
    case False
    with Yield.prems(2) have "batch_loop P g current_batch batches = Inr (c, bs, rest)" by simp
    from Yield.IH [OF Yield.prems(1) this] show ?thesis .
  next
    case accepted: True
    show ?thesis
    proof (cases "int (length (current_batch @ [r])) \<ge> batch_size P")
      case sealed: True
      have empty: "[] = [] \<or> int (length ([] :: HistoricAgentRecord list)) < batch_size P" by simp
      show ?thesis
      proof (cases "int (length (batches @ [current_batch @ [r]])) \<ge> max_batches P")
        case True
        with accepted sealed Yield.prems(2) show ?thesis by simp
      next
        case False
        with accepted sealed Yield.prems(2)
        have "batch_loop P g [] (batches @ [current_batch @ [r]]) = Inr (c, bs, rest)" by simp
        from Yield.IH [OF empty this] show ?thesis .
      qed
    next
      case open_batch: False
      then have small: "current_batch @ [r] = [] \<or> int (length (current_batch @ [r])) < batch_size P"
        by simp
      show ?thesis
      proof (cases "int (length batches) \<ge> max_batches P")
        case True
        with accepted open_batch Yield.prems(2) have "c = current_batch @ [r]" by simp
        with small show ?thesis by simp
      next
        case False
        with accepted open_batch Yield.prems(2)
        have "batch_loop P g (current_batch @ [r]) batches = Inr (c, bs, rest)" by simp
        from Yield.IH [OF small this] show ?thesis .
      qed
    qed
  qed
qed

lemma form_batches_cap:
  assumes "1 \<le> max_batches P" and "form_batches P input = Inr (batches, rest)"
  shows "int (length batches) \<le> max_batches P"
proof -
  from assms(2) obtain c bs where
    loop: "batch_loop P input [] [] = Inr (c, bs, rest)" and
    sealed: "batches = (if c \<noteq> [] then bs @ [c] else bs)"
    by (auto simp: form_batches_def split: sum.splits)
  from assms(1) have "int (length ([] :: HistoricAgentRecord list list)) < max_batches P" by simp
  from batch_loop_cap [OF this loop]
  have "int (length bs) \<le> max_batches P" and "int (length bs) = max_batches P \<longrightarrow> c = []"
    by simp_all
  with sealed show ?thesis by (cases "c = []") auto
qed

lemma form_batches_partial:
  assumes "1 \<le> max_batches P" and "batch_loop P input [] [] = Inr (c, bs, rest)" and "c \<noteq> []"
  shows "form_batches P input = Inr (bs @ [c], rest) \<and> int (length bs) < max_batches P"
proof -
  from assms(1) have "int (length ([] :: HistoricAgentRecord list list)) < max_batches P" by simp
  from batch_loop_cap [OF this assms(2)] assms(3)
  have "int (length bs) < max_batches P" by auto
  with assms(2,3) show ?thesis by (simp add: form_batches_def)
qed

lemma batch_loop_nonempty:
  "[] \<notin> set batches \<Longrightarrow> batch_loop P input current_batch batches = Inr (c, bs, rest) \<Longrightarrow>
   [] \<notin> set bs"
proof (induction input arbitrary: current_batch batches)
  case Done
  then show ?case by auto
next
  case (Raise e)
  then show ?case by simp
next
  case (Yield r g)
  have sealed: "[] \<notin> set (batches @ [current_batch @ [r]])" using Yield.prems(1) by simp
  from Yield.prems(2) show ?case
    using Yield.IH [OF Yield.prems(1)] Yield.IH [OF sealed] Yield.prems(1)
    by (auto split: if_splits)
qed

lemma form_batches_nonempty:
  assumes "form_batches P input = Inr (batches, rest)"
  shows "[] \<notin> set batches"
proof -
  from assms obtain c bs where
    loop: "batch_loop P input [] [] = Inr (c, bs, rest)" and
    sealed: "batches = (if c \<noteq> [] then bs @ [c] else bs)"
    by (auto simp: form_batches_def split: sum.splits)
  have "[] \<notin> set ([] :: HistoricAgentRecord list list)" by simp
  from batch_loop_nonempty [OF this loop] have "[] \<notin> set bs" .
  with sealed show ?thesis by (cases "c = []") auto
qed

lemma batch_loop_error:
  "batch_loop P input current_batch batches = Inl e \<Longrightarrow> outcome input = Some e"
  by (induction input arbitrary: current_batch batches) (auto split: if_splits)

lemma form_batches_error: "form_batches P input = Inl e \<Longrightarrow> outcome input = Some e"
  by (auto simp: form_batches_def split: sum.splits dest: batch_loop_error)

text \<open>
  Claim C2, as stated, at a cap of zero: with \<^verbatim>\<open>max_batches = 0\<close>, \<^verbatim>\<open>batch_size = 2\<close> and
  one accepted record, the loop breaks after the record has entered the running batch
  (no batch is sealed, and zero batches already reach the cap), and the running batch
  is sealed after the loop: one batch, above the cap.
\<close>

theorem cap_of_zero_exceeded:
  "form_batches (accept_all 2 0 10) (generate [agent_record 1]) = Inr ([[agent_record 1]], Done)
   \<and> \<not> int (length [[agent_record 1]]) \<le> max_batches (accept_all 2 0 10)"
  by (simp add: form_batches_def generate_def accept_all_def)

text \<open>
  Claim C2, amended to a cap of at least one: the batches formed are never more than
  \<^verbatim>\<open>max_batches\<close>; and when the loop leaves a non-empty running batch, that batch,
  shorter than \<^verbatim>\<open>batch_size\<close>, is sealed as the last one, the loop having ended with
  fewer than \<^verbatim>\<open>max_batches\<close> sealed batches.
\<close>

theorem sealed_batches_within_cap:
  assumes "1 \<le> max_batches P" and "form_batches P input = Inr (batches, rest)"
  shows "int (length batches) \<le> max_batches P
         \<and> (batch_loop P input [] [] = Inr (c, bs, rest') \<and> c \<noteq> []
              \<longrightarrow> batches = bs @ [c] \<and> int (length bs) < max_batches P
                  \<and> int (length c) < batch_size P)"
proof (intro conjI impI)
  from assms show "int (length batches) \<le> max_batches P" by (rule form_batches_cap)
next
  assume loop: "batch_loop P input [] [] = Inr (c, bs, rest') \<and> c \<noteq> []"
  with form_batches_partial [OF assms(1), of input c bs rest'] assms(2)
  show "batches = bs @ [c]" by simp
next
  assume loop: "batch_loop P input [] [] = Inr (c, bs, rest') \<and> c \<noteq> []"
  with form_batches_partial [OF assms(1), of input c bs rest']
  show "int (length bs) < max_batches P" by simp
next
  assume loop: "batch_loop P input [] [] = Inr (c, bs, rest') \<and> c \<noteq> []"
  have "([] :: HistoricAgentRecord list) = [] \<or> int (length ([] :: HistoricAgentRecord list)) < batch_size P"
    by simp
  from batch_loop_undersized [OF this, of input "[]" c bs rest'] loop
  show "int (length c) < batch_size P" by simp
qed

text \<open>
  Witness for claim C2: \<^verbatim>\<open>batch_size = 3\<close>, \<^verbatim>\<open>max_batches = 5\<close> and four records give
  a full batch and the partial batch of the fourth record.
\<close>

theorem sealed_batches_within_cap_witness:
  "1 \<le> max_batches (accept_all 3 5 10)
   \<and> form_batches (accept_all 3 5 10) (generate (map agent_record [1, 2, 3, 4]))
       = Inr ([[agent_record 1, agent_record 2, agent_record 3], [agent_record 4]], Done)
   \<and> batch_loop (accept_all 3 5 10) (generate (map agent_record [1, 2, 3, 4])) [] []
       = Inr ([agent_record 4], [[agent_record 1, agent_record 2, agent_record 3]], Done)
   \<and> [agent_record 4] \<noteq> []
   \<and> int (length [[agent_record 1, agent_record 2, agent_record 3], [agent_record 4]])
       \<le> max_batches (accept_all 3 5 10)
   \<and> int (length [[agent_record 1, agent_record 2, agent_record 3]]) < max_batches (accept_all 3 5 10)
   \<and> int (length [agent_record 4]) < batch_size (accept_all 3 5 10)"
proof -
  have cap: "1 \<le> max_batches (accept_all 3 5 10)" by (simp add: accept_all_def)
  have loop: "batch_loop (accept_all 3 5 10) (generate (map agent_record [1, 2, 3, 4])) [] []
       = Inr ([agent_record 4], [[agent_record 1, agent_record 2, agent_record 3]], Done)"
    by (simp add: generate_def accept_all_def)
  have formed: "form_batches (accept_all 3 5 10) (generate (map agent_record [1, 2, 3, 4]))
       = Inr ([[agent_record 1, agent_record 2, agent_record 3], [agent_record 4]], Done)"
    by (simp add: form_batches_def generate_def accept_all_def)
  from sealed_batches_within_cap [OF cap formed, of "[agent_record 4]"
         "[[agent_record 1, agent_record 2, agent_record 3]]" Done] cap loop formed
  show ?thesis by simp
qed

text \<open>
  What the loop has consumed: the input is what it has consumed followed by what it
  returns as the rest. Below the cap every record either takes the loop on, with
  fewer batches than the cap, or seals the batch that reaches the cap and ends it.
\<close>

lemma batch_loop_step:
  assumes "int (length batches) < max_batches P"
  shows "(\<exists>current' batches'. int (length batches') < max_batches P
            \<and> (\<forall>g. batch_loop P (Yield r g) current_batch batches = batch_loop P g current' batches'))
         \<or> (int (length (batches @ [current_batch @ [r]])) = max_batches P
            \<and> (\<forall>g. batch_loop P (Yield r g) current_batch batches
                      = Inr ([], batches @ [current_batch @ [r]], g)))"
proof (cases "filter_agents P r")
  case False
  then have "\<forall>g. batch_loop P (Yield r g) current_batch batches = batch_loop P g current_batch batches"
    by simp
  with assms show ?thesis by blast
next
  case accepted: True
  show ?thesis
  proof (cases "int (length (current_batch @ [r])) \<ge> batch_size P")
    case sealed: True
    show ?thesis
    proof (cases "int (length (batches @ [current_batch @ [r]])) \<ge> max_batches P")
      case True
      with assms have "int (length (batches @ [current_batch @ [r]])) = max_batches P" by simp
      moreover from accepted sealed True
      have "\<forall>g. batch_loop P (Yield r g) current_batch batches
                  = Inr ([], batches @ [current_batch @ [r]], g)" by simp
      ultimately show ?thesis by blast
    next
      case False
      then have "int (length (batches @ [current_batch @ [r]])) < max_batches P" by simp
      moreover from accepted sealed False
      have "\<forall>g. batch_loop P (Yield r g) current_batch batches
                  = batch_loop P g [] (batches @ [current_batch @ [r]])" by simp
      ultimately show ?thesis by blast
    qed
  next
    case False
    with accepted assms
    have "\<forall>g. batch_loop P (Yield r g) current_batch batches
                = batch_loop P g (current_batch @ [r]) batches" by simp
    with assms show ?thesis by blast
  qed
qed

lemma batch_loop_consumed:
  "int (length batches) < max_batches P \<Longrightarrow>
   batch_loop P input current_batch batches = Inr (c, bs, rest) \<Longrightarrow>
   \<exists>consumed. input = yield_all consumed rest
     \<and> batch_loop P (generate consumed) current_batch batches = Inr (c, bs, Done)
     \<and> (rest \<noteq> Done \<longrightarrow> int (length bs) = max_batches P)
     \<and> (\<forall>p q. consumed = p @ q \<and> q \<noteq> [] \<longrightarrow>
           (\<exists>c' bs'. batch_loop P (generate p) current_batch batches = Inr (c', bs', Done)
                     \<and> int (length bs') < max_batches P))"
proof (induction input arbitrary: current_batch batches)
  case Done
  then have "Done = yield_all [] rest
     \<and> batch_loop P (generate []) current_batch batches = Inr (c, bs, Done)
     \<and> (rest \<noteq> Done \<longrightarrow> int (length bs) = max_batches P)
     \<and> (\<forall>p q. [] = p @ q \<and> q \<noteq> [] \<longrightarrow>
           (\<exists>c' bs'. batch_loop P (generate p) current_batch batches = Inr (c', bs', Done)
                     \<and> int (length bs') < max_batches P))"
    by (auto simp: generate_def)
  then show ?case by blast
next
  case (Raise e)
  then show ?case by simp
next
  case (Yield r g)
  from batch_loop_step [OF Yield.prems(1), of r current_batch]
  show ?case
  proof
    assume "\<exists>current' batches'. int (length batches') < max_batches P
            \<and> (\<forall>g. batch_loop P (Yield r g) current_batch batches = batch_loop P g current' batches')"
    then obtain current' batches' where below: "int (length batches') < max_batches P"
      and step: "\<And>h. batch_loop P (Yield r h) current_batch batches = batch_loop P h current' batches'"
      by blast
    from Yield.prems(2) step have "batch_loop P g current' batches' = Inr (c, bs, rest)" by simp
    from Yield.IH [OF below this] obtain consumed where
      split: "g = yield_all consumed rest"
      and same: "batch_loop P (generate consumed) current' batches' = Inr (c, bs, Done)"
      and early: "rest \<noteq> Done \<longrightarrow> int (length bs) = max_batches P"
      and before: "\<forall>p q. consumed = p @ q \<and> q \<noteq> [] \<longrightarrow>
           (\<exists>c' bs'. batch_loop P (generate p) current' batches' = Inr (c', bs', Done)
                     \<and> int (length bs') < max_batches P)"
      by blast
    have "\<forall>p q. r # consumed = p @ q \<and> q \<noteq> [] \<longrightarrow>
           (\<exists>c' bs'. batch_loop P (generate p) current_batch batches = Inr (c', bs', Done)
                     \<and> int (length bs') < max_batches P)"
    proof (intro allI impI)
      fix p q
      assume pq: "r # consumed = p @ q \<and> q \<noteq> []"
      show "\<exists>c' bs'. batch_loop P (generate p) current_batch batches = Inr (c', bs', Done)
                     \<and> int (length bs') < max_batches P"
      proof (cases p)
        case Nil
        with Yield.prems(1) show ?thesis by (simp add: generate_def)
      next
        case (Cons x p')
        with pq have "x = r" and "consumed = p' @ q \<and> q \<noteq> []" by simp_all
        with before obtain c' bs' where
          "batch_loop P (generate p') current' batches' = Inr (c', bs', Done)"
          and "int (length bs') < max_batches P" by blast
        with step [of "generate p'"] Cons \<open>x = r\<close> show ?thesis by (simp add: generate_def)
      qed
    qed
    moreover from split have "Yield r g = yield_all (r # consumed) rest" by simp
    moreover from same step [of "generate consumed"]
    have "batch_loop P (generate (r # consumed)) current_batch batches = Inr (c, bs, Done)"
      by (simp add: generate_def)
    ultimately show ?thesis using early by blast
  next
    assume "int (length (batches @ [current_batch @ [r]])) = max_batches P
            \<and> (\<forall>g. batch_loop P (Yield r g) current_batch batches
                      = Inr ([], batches @ [current_batch @ [r]], g))"
    then have cap: "int (length (batches @ [current_batch @ [r]])) = max_batches P"
      and stop: "\<And>h. batch_loop P (Yield r h) current_batch batches
                      = Inr ([], batches @ [current_batch @ [r]], h)" by simp_all
    from Yield.prems(2) stop [of g]
    have res: "c = []" "bs = batches @ [current_batch @ [r]]" "rest = g" by simp_all
    have "\<forall>p q. [r] = p @ q \<and> q \<noteq> [] \<longrightarrow>
           (\<exists>c' bs'. batch_loop P (generate p) current_batch batches = Inr (c', bs', Done)
                     \<and> int (length bs') < max_batches P)"
    proof (intro allI impI)
      fix p q
      assume "[r] = p @ q \<and> q \<noteq> []"
      then have "p = []" by (cases p) simp_all
      with Yield.prems(1)
      show "\<exists>c' bs'. batch_loop P (generate p) current_batch batches = Inr (c', bs', Done)
                     \<and> int (length bs') < max_batches P" by (simp add: generate_def)
    qed
    moreover from res have "Yield r g = yield_all [r] rest" by simp
    moreover from res stop [of Done]
    have "batch_loop P (generate [r]) current_batch batches = Inr (c, bs, Done)"
      by (simp add: generate_def)
    moreover from res cap have "rest \<noteq> Done \<longrightarrow> int (length bs) = max_batches P" by simp
    ultimately show ?thesis by blast
  qed
qed

lemma size_yield_all: "size (yield_all xs g) = length xs + size g"
  by (induction xs) simp_all

lemma yield_all_same_rest:
  assumes "yield_all xs g = yield_all ys g"
  shows "xs = ys"
proof -
  from assms have "size (yield_all xs g) = size (yield_all ys g)" by simp
  then have "length xs = length ys" by (simp add: size_yield_all)
  then show ?thesis using assms by (induction xs ys rule: list_induct2) simp_all
qed

text \<open>
  Claim C7, as stated, at a cap of zero: with \<^verbatim>\<open>max_batches = 0\<close> the cap is reached
  before anything is read, since no batch is sealed and zero batches are asked for;
  yet the loop reads the first record, which enters the running batch, and stops only
  then. The second record is left in the input.
\<close>

theorem cap_of_zero_consumes_a_record:
  "max_batches (accept_all 2 0 10) \<le> int (length ([] :: HistoricAgentRecord list list))
   \<and> batch_loop (accept_all 2 0 10) (generate [agent_record 1, agent_record 2]) [] []
       = Inr ([agent_record 1], [], generate [agent_record 2])
   \<and> generate [agent_record 1, agent_record 2] = yield_all [agent_record 1] (generate [agent_record 2])"
  by (simp add: generate_def accept_all_def)

text \<open>
  Claim C7, amended to a cap of at least one. The input of the loop is what the loop
  has consumed followed by the rest that it leaves unread, and for that split: the
  batches depend on the consumed records alone; the loop leaves something unread only
  when \<^verbatim>\<open>max_batches\<close> batches are sealed; and before the last consumed record was
  read, fewer than \<^verbatim>\<open>max_batches\<close> batches were sealed, so that the loop stops at the
  very record that seals the batch reaching the cap. With \<^verbatim>\<open>batch_size = 2\<close>,
  \<^verbatim>\<open>max_batches = 1\<close> and a filter that accepts everything, the batches formed from
  \<^verbatim>\<open>[a, b, c, d]\<close> are exactly \<^verbatim>\<open>[[a, b]]\<close>, and \<^verbatim>\<open>c\<close> and \<^verbatim>\<open>d\<close> are left in the input;
  whatever follows the first two items is left there, unread.
\<close>

theorem consumption_stops_at_cap:
  "(1 \<le> max_batches P \<and> batch_loop P input [] [] = Inr (current_batch, batches, rest)
      \<longrightarrow> (\<exists>consumed. input = yield_all consumed rest)
          \<and> (input = yield_all consumed rest
               \<longrightarrow> batch_loop P (generate consumed) [] [] = Inr (current_batch, batches, Done)
                   \<and> (rest \<noteq> Done \<longrightarrow> int (length batches) = max_batches P)
                   \<and> (consumed = p @ q \<and> q \<noteq> []
                        \<longrightarrow> (\<exists>c' bs'. batch_loop P (generate p) [] [] = Inr (c', bs', Done)
                                     \<and> int (length bs') < max_batches P))))
   \<and> form_batches (accept_all 2 1 width) (generate [a, b, c, d]) = Inr ([[a, b]], generate [c, d])
   \<and> form_batches (accept_all 2 1 width) (Yield a (Yield b tail)) = Inr ([[a, b]], tail)"
proof (intro conjI impI)
  assume h: "1 \<le> max_batches P \<and> batch_loop P input [] [] = Inr (current_batch, batches, rest)"
  then have "int (length ([] :: HistoricAgentRecord list list)) < max_batches P" by simp
  from batch_loop_consumed [OF this, of input "[]" current_batch batches rest] h
  obtain xs where split: "input = yield_all xs rest"
    and same: "batch_loop P (generate xs) [] [] = Inr (current_batch, batches, Done)"
    and early: "rest \<noteq> Done \<longrightarrow> int (length batches) = max_batches P"
    and before: "\<forall>p q. xs = p @ q \<and> q \<noteq> [] \<longrightarrow>
           (\<exists>c' bs'. batch_loop P (generate p) [] [] = Inr (c', bs', Done)
                     \<and> int (length bs') < max_batches P)"
    by blast
  from split show "\<exists>consumed. input = yield_all consumed rest" by blast
  assume "input = yield_all consumed rest"
  with split have "yield_all consumed rest = yield_all xs rest" by simp
  then have xs: "consumed = xs" by (rule yield_all_same_rest)
  with same show "batch_loop P (generate consumed) [] [] = Inr (current_batch, batches, Done)"
    by simp
  from early show "rest \<noteq> Done \<Longrightarrow> int (length batches) = max_batches P" by simp
  assume "consumed = p @ q \<and> q \<noteq> []"
  with xs before
  show "\<exists>c' bs'. batch_loop P (generate p) [] [] = Inr (c', bs', Done)
                \<and> int (length bs') < max_batches P" by blast
next
  show "form_batches (accept_all 2 1 width) (generate [a, b, c, d]) = Inr ([[a, b]], generate [c, d])"
    by (simp add: form_batches_def generate_def accept_all_def)
next
  show "form_batches (accept_all 2 1 width) (Yield a (Yield b tail)) = Inr ([[a, b]], tail)"
    by (simp add: form_batches_def accept_all_def)
qed

text \<open>
  Witness for claim C7: \<^verbatim>\<open>batch_size = 2\<close>, \<^verbatim>\<open>max_batches = 1\<close> and four records. The
  loop consumes the first two and leaves the other two; after the first record alone
  no batch is sealed. A run of the stage hands only the first two records to its
  collaborators.
\<close>

theorem consumption_stops_at_cap_witness:
  "1 \<le> max_batches (accept_all 2 1 3)
   \<and> batch_loop (accept_all 2 1 3) (generate (map agent_record [1, 2, 3, 4])) [] []
       = Inr ([], [[agent_record 1, agent_record 2]], generate [agent_record 3, agent_record 4])
   \<and> generate (map agent_record [1, 2, 3, 4])
       = yield_all [agent_record 1, agent_record 2] (generate [agent_record 3, agent_record 4])
   \<and> batch_loop (accept_all 2 1 3) (generate [agent_record 1, agent_record 2]) [] []
       = Inr ([], [[agent_record 1, agent_record 2]], Done)
   \<and> generate [agent_record 3, agent_record 4] \<noteq> Done
   \<and> int (length [[agent_record 1, agent_record 2]]) = max_batches (accept_all 2 1 3)
   \<and> [agent_record 1, agent_record 2] = [agent_record 1] @ [agent_record 2]
   \<and> batch_loop (accept_all 2 1 3) (generate [agent_record 1]) [] [] = Inr ([agent_record 1], [], Done)
   \<and> calls (snd (Batched_run (accept_all 2 1 3) (generate (map agent_record [1, 2, 3, 4])) 0 empty_state))
       = [Analyze [data (agent_record 1), data (agent_record 2)],
          SelectTop [agent_record 1, agent_record 2] ''analysis'']"
proof -
  let ?P = "accept_all 2 1 3"
  have cap: "1 \<le> max_batches ?P" by (simp add: accept_all_def)
  have loop: "batch_loop ?P (generate (map agent_record [1, 2, 3, 4])) [] []
       = Inr ([], [[agent_record 1, agent_record 2]], generate [agent_record 3, agent_record 4])"
    by (simp add: generate_def accept_all_def)
  have split: "generate (map agent_record [1, 2, 3, 4])
       = yield_all [agent_record 1, agent_record 2] (generate [agent_record 3, agent_record 4])"
    by (simp add: generate_def)
  have rest: "generate [agent_record 3, agent_record 4] \<noteq> Done" by (simp add: generate_def)
  have one: "batch_loop ?P (generate [agent_record 1]) [] [] = Inr ([agent_record 1], [], Done)"
    by (simp add: generate_def accept_all_def)
  have run: "calls (snd (Batched_run ?P (generate (map agent_record [1, 2, 3, 4])) 0 empty_state))
       = [Analyze [data (agent_record 1), data (agent_record 2)],
          SelectTop [agent_record 1, agent_record 2] ''analysis'']"
    by (simp add: Batched_run_def alloc_def form_batches_def generate_def merged_metadata_def
          run_batches_def run_batches_from.simps run_wave_def TaskGroup_def by_turns_def
          query_def insert_record_def print_def
          accept_all_def empty_state_def quiet_world_def agent_record_def
          serialize_agent_ids_def str_def digits_lt10 digit_char_def Let_def)
  from consumption_stops_at_cap
         [of ?P "generate (map agent_record [1, 2, 3, 4])" "[]" "[[agent_record 1, agent_record 2]]"
             "generate [agent_record 3, agent_record 4]" "[agent_record 1, agent_record 2]"
             "[agent_record 1]" "[agent_record 2]"]
       cap loop split rest
  have "batch_loop ?P (generate [agent_record 1, agent_record 2]) [] []
          = Inr ([], [[agent_record 1, agent_record 2]], Done)
        \<and> int (length [[agent_record 1, agent_record 2]]) = max_batches ?P"
    by simp
  with cap loop split rest one run show ?thesis by simp
qed

section \<open>Tasks and task groups\<close>

lemma run_agent_empty: "run_agent P [] metadata s = (Inl BatchIsEmpty, s)"
  by (simp add: run_agent_def)

lemma raised_not_empty: "raised f \<noteq> BatchIsEmpty"
  by (cases f) simp_all

lemma raised_cases: "raised f = CancelledError \<or> (\<exists>msg. raised f = CollaboratorFailure msg)"
  by (cases f) simp_all

lemma run_agent_error:
  "batch \<noteq> [] \<Longrightarrow> run_agent P batch metadata s = (Inl e, s') \<Longrightarrow> \<exists>f. e = raised f"
  by (auto simp: run_agent_def Let_def insert_record_def
           split: list.splits if_splits prod.splits sum.splits)

text \<open>
  A task that is resumed three times in a row does what the work unit does when it is
  awaited on its own.
\<close>

lemma three_resumptions:
  "(case task_step P metadata (Created batch) s of
      (t1, s1) \<Rightarrow>
        (case task_step P metadata t1 s1 of
           (t2, s2) \<Rightarrow>
             (case task_step P metadata t2 s2 of
                (t3, s3) \<Rightarrow> (result t3, s3))))
   = run_agent P batch metadata s"
  by (cases batch)
     (auto simp: run_agent_def Let_def insert_record_def split: prod.splits sum.splits)

lemma task_step_progress:
  "\<not> ended t \<Longrightarrow> resumptions_left (fst (task_step P metadata t s)) < resumptions_left t"
  by (cases t) (auto simp: Let_def insert_record_def split: list.splits prod.splits sum.splits)

lemma ended_iff: "ended t \<longleftrightarrow> resumptions_left t = 0"
  by (cases t) simp_all

lemma task_step_heap:
  "heap (snd (task_step P metadata t s)) = heap s
   \<and> next_addr (snd (task_step P metadata t s)) = next_addr s"
  by (cases t) (auto simp: Let_def insert_record_def split: list.splits prod.splits sum.splits)

lemma task_step_rows:
  "r \<in> set (db (snd (task_step P metadata t s))) \<Longrightarrow> r \<in> set (db s) \<or> meta r = heap s metadata"
  by (cases t)
     (auto simp: Let_def insert_record_def split: list.splits prod.splits sum.splits if_splits)

lemma task_step_failure:
  "task_step P metadata t s = (Raised e, s') \<Longrightarrow> \<not> ended t \<Longrightarrow> t \<noteq> Created [] \<Longrightarrow>
   e = CancelledError \<or> (\<exists>msg. e = CollaboratorFailure msg)"
  using raised_cases
  by (cases t)
     (auto simp: Let_def insert_record_def split: list.splits prod.splits sum.splits if_splits)

lemma task_step_started:
  "\<not> ended t \<Longrightarrow> fst (task_step P metadata t s) \<noteq> Created batch"
  by (cases t) (auto simp: Let_def insert_record_def split: list.splits prod.splits sum.splits)

text \<open>
  What holds of a task group when it is created, and is kept by every resumption of a
  task that has not ended, holds of it whenever the block is left.
\<close>

lemma resume_invariant:
  assumes "I (tasks, errors, s)"
    and "\<And>tasks errors s i t s'.
           I (tasks, errors, s) \<Longrightarrow> i < length tasks \<Longrightarrow> \<not> ended (tasks ! i) \<Longrightarrow>
           task_step P metadata (tasks ! i) s = (t, s') \<Longrightarrow>
           I (tasks[i := t], errors @ collected t, s')"
  shows "I (resume P metadata i (tasks, errors, s))"
proof (cases "i < length tasks \<and> \<not> ended (tasks ! i)")
  case True
  obtain t s' where step: "task_step P metadata (tasks ! i) s = (t, s')"
    by (cases "task_step P metadata (tasks ! i) s")
  from assms(2) [OF assms(1) _ _ step] True have "I (tasks[i := t], errors @ collected t, s')"
    by simp
  with True step show ?thesis by simp
next
  case False
  with assms(1) show ?thesis by auto
qed

lemma run_schedule_invariant:
  assumes "I g"
    and "\<And>tasks errors s i t s'.
           I (tasks, errors, s) \<Longrightarrow> i < length tasks \<Longrightarrow> \<not> ended (tasks ! i) \<Longrightarrow>
           task_step P metadata (tasks ! i) s = (t, s') \<Longrightarrow>
           I (tasks[i := t], errors @ collected t, s')"
  shows "I (run_schedule P metadata order g)"
  using assms(1)
proof (induction order arbitrary: g)
  case Nil
  then show ?case by simp
next
  case (Cons i order)
  obtain tasks errors s where g: "g = (tasks, errors, s)" by (cases g)
  with Cons.prems have "I (tasks, errors, s)" by simp
  then have "I (resume P metadata i (tasks, errors, s))" using assms(2) by (rule resume_invariant)
  with g have "I (resume P metadata i g)" by simp
  then have "I (run_schedule P metadata order (resume P metadata i g))" by (rule Cons.IH)
  then show ?case by simp
qed

lemma run_to_end_invariant:
  assumes "I g"
    and "\<And>tasks errors s i t s'.
           I (tasks, errors, s) \<Longrightarrow> i < length tasks \<Longrightarrow> \<not> ended (tasks ! i) \<Longrightarrow>
           task_step P metadata (tasks ! i) s = (t, s') \<Longrightarrow>
           I (tasks[i := t], errors @ collected t, s')"
  shows "I (run_to_end P metadata order g)"
  using assms(1)
proof (induction order arbitrary: g)
  case Nil
  then show ?case by simp
next
  case (Cons i order)
  obtain tasks errors s where g: "g = (tasks, errors, s)" by (cases g)
  show ?case
  proof (cases "errors \<noteq> []")
    case True
    with g Cons.prems show ?thesis by simp
  next
    case False
    from g Cons.prems have "I (tasks, errors, s)" by simp
    then have "I (resume P metadata i (tasks, errors, s))" using assms(2) by (rule resume_invariant)
    then have "I (run_to_end P metadata order (resume P metadata i (tasks, errors, s)))"
      by (rule Cons.IH)
    with g False show ?thesis by simp
  qed
qed

lemma TaskGroup_invariant:
  assumes "I (map Created batch_chunk, [], s)"
    and "\<And>tasks errors s i t s'.
           I (tasks, errors, s) \<Longrightarrow> i < length tasks \<Longrightarrow> \<not> ended (tasks ! i) \<Longrightarrow>
           task_step P metadata (tasks ! i) s = (t, s') \<Longrightarrow>
           I (tasks[i := t], errors @ collected t, s')"
  shows "I (TaskGroup P batch_chunk metadata order s)"
  unfolding TaskGroup_def
  by (rule run_to_end_invariant [OF run_schedule_invariant [OF assms(1) assms(2)] assms(2)])

lemma TaskGroup_heap:
  assumes "TaskGroup P batch_chunk metadata order s = (tasks, errors, s')"
  shows "heap s' = heap s \<and> next_addr s' = next_addr s"
proof -
  let ?I = "\<lambda>g. heap (snd (snd g)) = heap s \<and> next_addr (snd (snd g)) = next_addr s"
  have "?I (TaskGroup P batch_chunk metadata order s)"
  proof (rule TaskGroup_invariant)
    show "?I (map Created batch_chunk, [], s)" by simp
  next
    fix tasks :: "task list" and errors :: "error list" and sa sb :: "'a state" and i t
    assume "?I (tasks, errors, sa)" and "task_step P metadata (tasks ! i) sa = (t, sb)"
    with task_step_heap [of P metadata "tasks ! i" sa]
    show "?I (tasks[i := t], errors @ collected t, sb)" by simp
  qed
  with assms show ?thesis by simp
qed

lemma TaskGroup_rows:
  assumes "TaskGroup P batch_chunk metadata order s = (tasks, errors, s')"
    and "r \<in> set (db s')"
  shows "r \<in> set (db s) \<or> meta r = heap s metadata"
proof -
  let ?I = "\<lambda>g. heap (snd (snd g)) = heap s
                 \<and> (\<forall>r \<in> set (db (snd (snd g))). r \<in> set (db s) \<or> meta r = heap s metadata)"
  have "?I (TaskGroup P batch_chunk metadata order s)"
  proof (rule TaskGroup_invariant)
    show "?I (map Created batch_chunk, [], s)" by simp
  next
    fix tasks :: "task list" and errors :: "error list" and sa sb :: "'a state" and i t
    assume inv: "?I (tasks, errors, sa)" and step: "task_step P metadata (tasks ! i) sa = (t, sb)"
    from step task_step_heap [of P metadata "tasks ! i" sa] inv have "heap sb = heap s" by simp
    moreover have "\<forall>r \<in> set (db sb). r \<in> set (db s) \<or> meta r = heap s metadata"
    proof
      fix x
      assume "x \<in> set (db sb)"
      with step have "x \<in> set (db (snd (task_step P metadata (tasks ! i) sa)))" by simp
      then have "x \<in> set (db sa) \<or> meta x = heap sa metadata" by (rule task_step_rows)
      with inv show "x \<in> set (db s) \<or> meta x = heap s metadata" by auto
    qed
    ultimately show "?I (tasks[i := t], errors @ collected t, sb)" by simp
  qed
  with assms show ?thesis by simp
qed

lemma TaskGroup_length:
  assumes "TaskGroup P batch_chunk metadata order s = (tasks, errors, s')"
  shows "length tasks = length batch_chunk"
proof -
  let ?I = "\<lambda>g. length (fst g) = length batch_chunk"
  have "?I (TaskGroup P batch_chunk metadata order s)"
  proof (rule TaskGroup_invariant)
    show "?I (map Created batch_chunk, [], s)" by simp
  next
    fix tasks :: "task list" and errors :: "error list" and sa sb :: "'a state" and i t
    assume "?I (tasks, errors, sa)"
    then show "?I (tasks[i := t], errors @ collected t, sb)" by simp
  qed
  with assms show ?thesis by simp
qed

text \<open>The exceptions that the group has collected are those of its tasks, cancellations apart.\<close>

lemma collected_iff: "e \<in> set (collected t) \<longleftrightarrow> t = Raised e \<and> e \<noteq> CancelledError"
  by (cases t) auto

lemma update_unended:
  assumes "i < length tasks" and "\<not> ended (tasks ! i)"
  shows "Raised e \<in> set (tasks[i := t]) \<longleftrightarrow> t = Raised e \<or> Raised e \<in> set tasks"
proof
  assume "Raised e \<in> set (tasks[i := t])"
  then have "Raised e \<in> insert t (set tasks)" using set_update_subset_insert by fastforce
  then show "t = Raised e \<or> Raised e \<in> set tasks" by auto
next
  assume "t = Raised e \<or> Raised e \<in> set tasks"
  then show "Raised e \<in> set (tasks[i := t])"
  proof
    assume "t = Raised e"
    with assms(1) show ?thesis by (simp add: set_update_memI)
  next
    assume "Raised e \<in> set tasks"
    then obtain j where j: "j < length tasks" "tasks ! j = Raised e" by (auto simp: in_set_conv_nth)
    with assms(2) have "j \<noteq> i" by auto
    with j have "tasks[i := t] ! j = Raised e" by simp
    with j(1) show ?thesis by (metis length_list_update nth_mem)
  qed
qed

lemma TaskGroup_errors:
  assumes "TaskGroup P batch_chunk metadata order s = (tasks, errors, s')"
  shows "set errors = {e. Raised e \<in> set tasks \<and> e \<noteq> CancelledError}"
proof -
  let ?I = "\<lambda>g. set (fst (snd g)) = {e. Raised e \<in> set (fst g) \<and> e \<noteq> CancelledError}"
  have "?I (TaskGroup P batch_chunk metadata order s)"
  proof (rule TaskGroup_invariant)
    show "?I (map Created batch_chunk, [], s)" by auto
  next
    fix tasks :: "task list" and errors :: "error list" and sa sb :: "'a state" and i t
    assume inv: "?I (tasks, errors, sa)" and i: "i < length tasks" and unended: "\<not> ended (tasks ! i)"
    have "set (errors @ collected t) = {e. Raised e \<in> set (tasks[i := t]) \<and> e \<noteq> CancelledError}"
    proof (rule set_eqI)
      fix e
      from inv have "e \<in> set errors \<longleftrightarrow> Raised e \<in> set tasks \<and> e \<noteq> CancelledError" by auto
      with update_unended [OF i unended, of e t] collected_iff [of e t]
      show "e \<in> set (errors @ collected t)
              \<longleftrightarrow> e \<in> {e. Raised e \<in> set (tasks[i := t]) \<and> e \<noteq> CancelledError}"
        by auto
    qed
    then show "?I (tasks[i := t], errors @ collected t, sb)" by simp
  qed
  with assms show ?thesis by simp
qed

text \<open>No task of a chunk without an empty batch raises anything but what a collaborator raised.\<close>

lemma TaskGroup_failures:
  assumes "[] \<notin> set batch_chunk"
    and "TaskGroup P batch_chunk metadata order s = (tasks, errors, s')"
  shows "\<forall>x \<in> set errors. \<exists>msg. x = CollaboratorFailure msg"
proof -
  let ?I = "\<lambda>g. Created [] \<notin> set (fst g) \<and> (\<forall>x \<in> set (fst (snd g)). \<exists>msg. x = CollaboratorFailure msg)"
  have "?I (TaskGroup P batch_chunk metadata order s)"
  proof (rule TaskGroup_invariant)
    from assms(1) show "?I (map Created batch_chunk, [], s)" by auto
  next
    fix tasks :: "task list" and errors :: "error list" and sa sb :: "'a state" and i t
    assume inv: "?I (tasks, errors, sa)" and i: "i < length tasks" and unended: "\<not> ended (tasks ! i)"
      and step: "task_step P metadata (tasks ! i) sa = (t, sb)"
    from inv i have started: "tasks ! i \<noteq> Created []" by (metis fst_conv nth_mem)
    from task_step_started [OF unended, of P metadata sa "[]"] step have "t \<noteq> Created []" by simp
    moreover have "set (tasks[i := t]) \<subseteq> insert t (set tasks)" by (rule set_update_subset_insert)
    ultimately have "Created [] \<notin> set (tasks[i := t])" using inv by auto
    moreover have "\<forall>x \<in> set (collected t). \<exists>msg. x = CollaboratorFailure msg"
    proof
      fix x
      assume "x \<in> set (collected t)"
      then have "t = Raised x" and "x \<noteq> CancelledError" by (simp_all add: collected_iff)
      with step task_step_failure [OF _ unended started, of P metadata sa x sb]
      show "\<exists>msg. x = CollaboratorFailure msg" by simp
    qed
    ultimately show "?I (tasks[i := t], errors @ collected t, sb)" using inv by auto
  qed
  with assms(2) show ?thesis by simp
qed

text \<open>
  A group that is left without an exception is left when all its tasks have ended:
  each of the three turns takes every task that has not ended one resumption further.
\<close>

lemma resume_progress:
  assumes "resume P metadata i (tasks, errors, s) = (tasks', errors', s')"
  shows "length tasks' = length tasks
         \<and> (\<forall>j < length tasks. resumptions_left (tasks' ! j)
                \<le> resumptions_left (tasks ! j) - (if j = i then 1 else 0))"
proof (cases "i < length tasks \<and> \<not> ended (tasks ! i)")
  case True
  obtain t sa where step: "task_step P metadata (tasks ! i) s = (t, sa)"
    by (cases "task_step P metadata (tasks ! i) s")
  with True assms have tasks': "tasks' = tasks[i := t]" by simp
  from True task_step_progress [of "tasks ! i" P metadata s] step
  have "resumptions_left t < resumptions_left (tasks ! i)" by simp
  with tasks' True show ?thesis by (auto simp: nth_list_update)
next
  case False
  with assms have "tasks' = tasks" by auto
  with False show ?thesis by (auto simp: ended_iff)
qed

lemma run_to_end_failed:
  "errors \<noteq> [] \<Longrightarrow> run_to_end P metadata order (tasks, errors, s) = (tasks, errors, s)"
  by (cases order) simp_all

lemma run_to_end_append:
  "run_to_end P metadata (xs @ ys) g = run_to_end P metadata ys (run_to_end P metadata xs g)"
proof (induction xs arbitrary: g)
  case Nil
  show ?case by simp
next
  case (Cons i xs)
  obtain tasks errors s where g: "g = (tasks, errors, s)" by (cases g)
  show ?case
  proof (cases "errors \<noteq> []")
    case True
    with g show ?thesis by (simp add: run_to_end_failed)
  next
    case False
    with g Cons.IH show ?thesis by simp
  qed
qed

lemma run_to_end_progress:
  "run_to_end P metadata order (tasks, errors, s) = (tasks', errors', s') \<Longrightarrow>
   length tasks' = length tasks
   \<and> (errors' \<noteq> []
      \<or> (\<forall>j < length tasks. resumptions_left (tasks' ! j)
             \<le> resumptions_left (tasks ! j) - (if j \<in> set order then 1 else 0)))"
proof (induction order arbitrary: tasks errors s)
  case Nil
  then show ?case by simp
next
  case (Cons i order)
  show ?case
  proof (cases "errors \<noteq> []")
    case True
    with Cons.prems show ?thesis by simp
  next
    case False
    obtain ta ea sa where first: "resume P metadata i (tasks, errors, s) = (ta, ea, sa)"
      by (cases "resume P metadata i (tasks, errors, s)")
    from resume_progress [OF first]
    have len: "length ta = length tasks"
      and one: "\<forall>j < length tasks. resumptions_left (ta ! j)
                  \<le> resumptions_left (tasks ! j) - (if j = i then 1 else 0)" by simp_all
    from False first Cons.prems
    have "run_to_end P metadata order (ta, ea, sa) = (tasks', errors', s')" by simp
    from Cons.IH [OF this] len
    have len': "length tasks' = length tasks"
      and rest: "errors' \<noteq> []
        \<or> (\<forall>j < length tasks. resumptions_left (tasks' ! j)
               \<le> resumptions_left (ta ! j) - (if j \<in> set order then 1 else 0))" by simp_all
    show ?thesis
    proof (cases "errors' \<noteq> []")
      case True
      with len' show ?thesis by simp
    next
      case False
      have "\<forall>j < length tasks. resumptions_left (tasks' ! j)
               \<le> resumptions_left (tasks ! j) - (if j \<in> set (i # order) then 1 else 0)"
      proof (intro allI impI)
        fix j
        assume j: "j < length tasks"
        with rest False have a: "resumptions_left (tasks' ! j)
               \<le> resumptions_left (ta ! j) - (if j \<in> set order then 1 else 0)" by simp
        from one j have b: "resumptions_left (ta ! j)
                  \<le> resumptions_left (tasks ! j) - (if j = i then 1 else 0)" by simp
        from a b show "resumptions_left (tasks' ! j)
               \<le> resumptions_left (tasks ! j) - (if j \<in> set (i # order) then 1 else 0)"
          by (cases "j = i"; cases "j \<in> set order") simp_all
      qed
      with len' show ?thesis by simp
    qed
  qed
qed

lemma resumptions_left_le: "resumptions_left t \<le> 3"
  by (cases t) simp_all

lemma one_turn:
  assumes "run_to_end P metadata [0..<length tasks] (tasks, errors, s) = (tasks', errors', s')"
    and "\<forall>j < length tasks. resumptions_left (tasks ! j) \<le> Suc k"
  shows "length tasks' = length tasks
         \<and> (errors' \<noteq> [] \<or> (\<forall>j < length tasks. resumptions_left (tasks' ! j) \<le> k))"
proof -
  from run_to_end_progress [OF assms(1)]
  have len: "length tasks' = length tasks"
    and less: "errors' \<noteq> []
      \<or> (\<forall>j < length tasks. resumptions_left (tasks' ! j)
             \<le> resumptions_left (tasks ! j) - (if j \<in> set [0..<length tasks] then 1 else 0))"
    by simp_all
  show ?thesis
  proof (cases "errors' \<noteq> []")
    case True
    with len show ?thesis by simp
  next
    case False
    have "\<forall>j < length tasks. resumptions_left (tasks' ! j) \<le> k"
    proof (intro allI impI)
      fix j
      assume j: "j < length tasks"
      with less False have "resumptions_left (tasks' ! j) \<le> resumptions_left (tasks ! j) - 1" by simp
      moreover from assms(2) j have "resumptions_left (tasks ! j) \<le> Suc k" by simp
      ultimately show "resumptions_left (tasks' ! j) \<le> k" by simp
    qed
    with len show ?thesis by simp
  qed
qed

lemma three_turns:
  assumes "run_to_end P metadata (by_turns (length tasks)) (tasks, errors, s) = (tasks', errors', s')"
  shows "errors' \<noteq> [] \<or> (\<forall>t \<in> set tasks'. ended t)"
proof -
  let ?turn = "[0..<length tasks]"
  obtain ta ea sa where a: "run_to_end P metadata ?turn (tasks, errors, s) = (ta, ea, sa)"
    by (cases "run_to_end P metadata ?turn (tasks, errors, s)")
  obtain tb eb sb where b: "run_to_end P metadata ?turn (ta, ea, sa) = (tb, eb, sb)"
    by (cases "run_to_end P metadata ?turn (ta, ea, sa)")
  from assms a b have c: "run_to_end P metadata ?turn (tb, eb, sb) = (tasks', errors', s')"
    by (simp add: by_turns_def run_to_end_append)
  have "\<forall>j < length tasks. resumptions_left (tasks ! j) \<le> Suc 2"
    using resumptions_left_le by (simp add: numeral_3_eq_3)
  from one_turn [OF a this]
  have la: "length ta = length tasks"
    and pa: "ea \<noteq> [] \<or> (\<forall>j < length tasks. resumptions_left (ta ! j) \<le> 2)" by simp_all
  show ?thesis
  proof (cases "ea \<noteq> []")
    case True
    with b have "eb = ea" by (simp add: run_to_end_failed)
    with True c have "errors' = ea" by (simp add: run_to_end_failed)
    with True show ?thesis by simp
  next
    case False
    with pa la have "\<forall>j < length ta. resumptions_left (ta ! j) \<le> Suc 1"
      by (simp add: numeral_2_eq_2)
    from one_turn [OF _ this, of P metadata ea sa tb eb sb] b la
    have lb: "length tb = length tasks"
      and pb: "eb \<noteq> [] \<or> (\<forall>j < length tasks. resumptions_left (tb ! j) \<le> 1)" by simp_all
    show ?thesis
    proof (cases "eb \<noteq> []")
      case True
      with c have "errors' = eb" by (simp add: run_to_end_failed)
      with True show ?thesis by simp
    next
      case False
      with pb lb have "\<forall>j < length tb. resumptions_left (tb ! j) \<le> Suc 0" by simp
      from one_turn [OF _ this, of P metadata eb sb tasks' errors' s'] c lb
      have lc: "length tasks' = length tasks"
        and pc: "errors' \<noteq> [] \<or> (\<forall>j < length tasks. resumptions_left (tasks' ! j) \<le> 0)" by simp_all
      show ?thesis
      proof (cases "errors' \<noteq> []")
        case True
        then show ?thesis by simp
      next
        case False
        with pc lc have "\<forall>j < length tasks'. ended (tasks' ! j)" by (simp add: ended_iff)
        then show ?thesis by (auto simp: in_set_conv_nth)
      qed
    qed
  qed
qed

lemma run_schedule_length:
  "run_schedule P metadata order g = (tasks, errors, s) \<Longrightarrow> length tasks = length (fst g)"
proof -
  assume run: "run_schedule P metadata order g = (tasks, errors, s)"
  let ?I = "\<lambda>h. length (fst h) = length (fst g)"
  have "?I (run_schedule P metadata order g)"
  proof (rule run_schedule_invariant)
    show "?I g" by simp
  next
    fix tasks :: "task list" and errors :: "error list" and sa sb :: "'a state" and i t
    assume "?I (tasks, errors, sa)"
    then show "?I (tasks[i := t], errors @ collected t, sb)" by simp
  qed
  with run show ?thesis by simp
qed

lemma TaskGroup_ended:
  assumes "TaskGroup P batch_chunk metadata order s = (tasks, [], s')"
  shows "\<forall>t \<in> set tasks. ended t"
proof -
  obtain ta ea sa where started:
    "run_schedule P metadata order (map Created batch_chunk, [], s) = (ta, ea, sa)"
    by (cases "run_schedule P metadata order (map Created batch_chunk, [], s)")
  from run_schedule_length [OF started] have "length ta = length batch_chunk" by simp
  with assms started
  have "run_to_end P metadata (by_turns (length ta)) (ta, ea, sa) = (tasks, [], s')"
    by (simp add: TaskGroup_def)
  from three_turns [OF this] show ?thesis by simp
qed

section \<open>Waves\<close>

lemma outcome_yield_all [simp]: "outcome (yield_all xs g) = outcome g"
  by (induction xs) simp_all

lemma outcome_reyield [simp]: "outcome (reyield g) = outcome g"
  by (induction g) simp_all

lemma reyield_id [simp]: "reyield g = g"
  by (induction g) simp_all

lemma yields_yield_all [simp]: "yields (yield_all xs g) = xs @ yields g"
  by (induction xs) simp_all

lemma nonempty_chunk: "[] \<notin> set batches \<Longrightarrow> [] \<notin> set (take n (drop i batches))"
  by (meson in_set_dropD in_set_takeD)

lemma world_print: "world (print l s) = world s"
  by (simp add: print_def)

lemma await_each_results: "\<not> list_ex isl ts \<Longrightarrow> await_each ts g = yield_all (map projr ts) g"
  by (induction ts g rule: await_each.induct) simp_all

lemma await_each_raises:
  "list_ex isl ts \<Longrightarrow> \<exists>e. Inl e \<in> set ts \<and> outcome (await_each ts g) = Some e"
  by (induction ts g rule: await_each.induct) auto

lemma result_Inl: "result t = Inl e \<Longrightarrow> t = Raised e \<or> e = CancelledError"
  by (cases t) simp_all


text \<open>One chunk of the loop, by what its task group has come to when the block is left.\<close>

lemma run_batches_from_wave:
  assumes "index < length batches" and "0 < concurrency P"
    and "TaskGroup P (take (nat (concurrency P)) (drop index batches)) metadata
           (schedule (world s) index)
           (print (RunningBatch index (length batches) (length (batches ! index))) s)
         = (tasks, errors, s')"
  shows "run_batches_from P batches index metadata s =
           (if errors \<noteq> [] then (Raise (ExceptionGroup errors), s')
            else if list_ex isl (sort_key (rank (world s')) (map result tasks))
            then (await_each (sort_key (rank (world s')) (map result tasks)) Done, s')
            else (await_each (sort_key (rank (world s')) (map result tasks))
                    (fst (run_batches_from P batches (index + nat (concurrency P)) metadata s')),
                  snd (run_batches_from P batches (index + nat (concurrency P)) metadata s')))"
  using assms
  by (subst run_batches_from.simps)
     (simp add: Let_def world_print run_wave_def split: prod.splits)

lemma run_batches_from_end:
  assumes "\<not> (index < length batches \<and> 0 < concurrency P)"
  shows "run_batches_from P batches index metadata s = (Done, s)"
  by (subst run_batches_from.simps) (simp only: assms if_False)

lemma run_batches_from_heap:
  "heap (snd (run_batches_from P batches index metadata s)) = heap s
   \<and> next_addr (snd (run_batches_from P batches index metadata s)) = next_addr s"
proof (induction "length batches - index" arbitrary: index s rule: less_induct)
  case less
  let ?s1 = "print (RunningBatch index (length batches) (length (batches ! index))) s"
  let ?chunk = "take (nat (concurrency P)) (drop index batches)"
  show ?case
  proof (cases "index < length batches \<and> 0 < concurrency P")
    case False
    then show ?thesis by (simp add: run_batches_from_end)
  next
    case True
    obtain tasks errors s2 where
      group: "TaskGroup P ?chunk metadata (schedule (world s) index) ?s1 = (tasks, errors, s2)"
      by (cases "TaskGroup P ?chunk metadata (schedule (world s) index) ?s1") auto
    from TaskGroup_heap [OF group]
    have s2: "heap s2 = heap s" "next_addr s2 = next_addr s" by (simp_all add: print_def)
    from True have "length batches - (index + nat (concurrency P)) < length batches - index" by auto
    from less [OF this, of s2] s2
    have "heap (snd (run_batches_from P batches (index + nat (concurrency P)) metadata s2)) = heap s"
      and "next_addr (snd (run_batches_from P batches (index + nat (concurrency P)) metadata s2)) = next_addr s"
      by simp_all
    with s2 True show ?thesis by (simp add: run_batches_from_wave [OF _ _ group])
  qed
qed

lemma run_batches_from_rows:
  "r \<in> set (db (snd (run_batches_from P batches index metadata s))) \<Longrightarrow>
   r \<in> set (db s) \<or> meta r = heap s metadata"
proof (induction "length batches - index" arbitrary: index s rule: less_induct)
  case less
  let ?s1 = "print (RunningBatch index (length batches) (length (batches ! index))) s"
  let ?chunk = "take (nat (concurrency P)) (drop index batches)"
  let ?later = "\<lambda>s2. run_batches_from P batches (index + nat (concurrency P)) metadata s2"
  show ?case
  proof (cases "index < length batches \<and> 0 < concurrency P")
    case False
    with less.prems show ?thesis by (simp add: run_batches_from_end)
  next
    case True
    obtain tasks errors s2 where
      group: "TaskGroup P ?chunk metadata (schedule (world s) index) ?s1 = (tasks, errors, s2)"
      by (cases "TaskGroup P ?chunk metadata (schedule (world s) index) ?s1") auto
    from TaskGroup_heap [OF group] have same: "heap s2 = heap s" by (simp add: print_def)
    from TaskGroup_rows [OF group]
    have step: "\<And>x. x \<in> set (db s2) \<Longrightarrow> x \<in> set (db s) \<or> meta x = heap s metadata"
      by (simp add: print_def)
    from True have smaller: "length batches - (index + nat (concurrency P)) < length batches - index"
      by auto
    from less.prems True have "r \<in> set (db s2) \<or> r \<in> set (db (snd (?later s2)))"
      by (simp add: run_batches_from_wave [OF _ _ group] split: if_splits)
    then show ?thesis
    proof
      assume "r \<in> set (db s2)"
      then show ?thesis by (rule step)
    next
      assume "r \<in> set (db (snd (?later s2)))"
      from less.hyps [OF smaller this] same step show ?thesis by auto
    qed
  qed
qed

text \<open>
  How the loop can end with an exception, when no batch is empty: with the exception
  group of a task group, which holds what collaborators raised, or with the
  cancellation of a task that is awaited after the block.
\<close>

lemma run_batches_from_error:
  "[] \<notin> set batches \<Longrightarrow> outcome (fst (run_batches_from P batches index metadata s)) = Some e \<Longrightarrow>
   e = CancelledError
   \<or> (\<exists>errors. e = ExceptionGroup errors \<and> errors \<noteq> []
         \<and> (\<forall>x \<in> set errors. \<exists>msg. x = CollaboratorFailure msg))"
proof (induction "length batches - index" arbitrary: index s rule: less_induct)
  case less
  let ?s1 = "print (RunningBatch index (length batches) (length (batches ! index))) s"
  let ?chunk = "take (nat (concurrency P)) (drop index batches)"
  let ?later = "\<lambda>s2. run_batches_from P batches (index + nat (concurrency P)) metadata s2"
  show ?case
  proof (cases "index < length batches \<and> 0 < concurrency P")
    case False
    with less.prems(2) show ?thesis by (simp add: run_batches_from_end)
  next
    case True
    obtain tasks errors s2 where
      group: "TaskGroup P ?chunk metadata (schedule (world s) index) ?s1 = (tasks, errors, s2)"
      by (cases "TaskGroup P ?chunk metadata (schedule (world s) index) ?s1") auto
    let ?completed = "sort_key (rank (world s2)) (map result tasks)"
    from True have smaller: "length batches - (index + nat (concurrency P)) < length batches - index"
      by auto
    show ?thesis
    proof (cases "errors \<noteq> []")
      case failed: True
      with less.prems(2) True have "e = ExceptionGroup errors"
        by (simp add: run_batches_from_wave [OF _ _ group])
      with failed TaskGroup_failures [OF nonempty_chunk [OF less.prems(1)] group]
      show ?thesis by simp
    next
      case clean: False
      show ?thesis
      proof (cases "list_ex isl ?completed")
        case True
        from await_each_raises [OF this, of Done] obtain x where
          x: "Inl x \<in> set ?completed" and out: "outcome (await_each ?completed Done) = Some x"
          by blast
        from less.prems(2) clean True \<open>index < length batches \<and> 0 < concurrency P\<close> out
        have "e = x" by (simp add: run_batches_from_wave [OF _ _ group])
        from x obtain t where t: "t \<in> set tasks" "result t = Inl x" by auto
        from TaskGroup_errors [OF group] clean
        have "\<forall>y. Raised y \<in> set tasks \<longrightarrow> y = CancelledError" by auto
        with t result_Inl [OF t(2)] have "x = CancelledError" by auto
        with \<open>e = x\<close> show ?thesis by simp
      next
        case False
        with less.prems(2) clean \<open>index < length batches \<and> 0 < concurrency P\<close>
        have "outcome (fst (?later s2)) = Some e"
          by (simp add: run_batches_from_wave [OF _ _ group] await_each_results)
        from less.hyps [OF smaller less.prems(1) this] show ?thesis .
      qed
    qed
  qed
qed


lemma Batched_run_error:
  assumes "outcome (fst (Batched_run P input metadata s)) = Some e"
  shows "outcome input = Some e \<or> e = RangeStepZero \<or> e = CancelledError
         \<or> (\<exists>errors. e = ExceptionGroup errors \<and> errors \<noteq> []
               \<and> (\<forall>x \<in> set errors. \<exists>msg. x = CollaboratorFailure msg))"
proof (cases "form_batches P input")
  case (Inl e1)
  with assms have "e = e1" by (simp add: Batched_run_def alloc_def)
  with Inl form_batches_error show ?thesis by blast
next
  case (Inr p)
  then obtain batches rest where formed: "form_batches P input = Inr (batches, rest)"
    by (cases p) simp
  from form_batches_nonempty [OF formed] have ne: "[] \<notin> set batches" .
  let ?s1 = "snd (alloc (merged_metadata P (heap s metadata)) s)"
  let ?a = "fst (alloc (merged_metadata P (heap s metadata)) s)"
  from assms formed have out: "outcome (fst (run_batches P batches ?a ?s1)) = Some e"
    by (simp add: Batched_run_def split: prod.splits)
  show ?thesis
  proof (cases "concurrency P = 0")
    case True
    with out show ?thesis by (simp add: run_batches_def)
  next
    case False
    with out have "0 < concurrency P"
      by (cases "concurrency P < 0") (simp_all add: run_batches_def)
    with out have "outcome (fst (run_batches_from P batches 0 ?a ?s1)) = Some e"
      by (simp add: run_batches_def)
    from run_batches_from_error [OF ne this] show ?thesis by blast
  qed
qed

section \<open>The failures of a run\<close>

text \<open>
  Claim C8. The work unit fails with the empty-batch error exactly when its batch is
  empty, awaited on its own or started as a task; no batch formed by the stage is
  empty; and so a run of the stage ends with an exception only in these ways: with
  the exception of its own input, with the zero step of \<^verbatim>\<open>range\<close>, with the
  cancellation of a task, or with the exception group of a task group, no member of
  which is the empty-batch error: every member is what a collaborator raised.
\<close>

theorem empty_batch_branch_unreachable:
  "(fst (run_agent P batch metadata s) = Inl BatchIsEmpty \<longleftrightarrow> batch = [])
   \<and> (form_batches P input = Inr (batches, rest) \<longrightarrow> [] \<notin> set batches)
   \<and> (fst (task_step P metadata (Created batch) s) = Raised BatchIsEmpty \<longleftrightarrow> batch = [])
   \<and> (outcome (fst (Batched_run P input metadata s)) = Some e \<longrightarrow>
        outcome input = Some e \<or> e = RangeStepZero \<or> e = CancelledError
        \<or> (\<exists>errors. e = ExceptionGroup errors \<and> BatchIsEmpty \<notin> set errors
               \<and> (\<forall>x \<in> set errors. \<exists>msg. x = CollaboratorFailure msg)))"
proof (intro conjI impI)
  show "fst (run_agent P batch metadata s) = Inl BatchIsEmpty \<longleftrightarrow> batch = []"
  proof
    assume failed: "fst (run_agent P batch metadata s) = Inl BatchIsEmpty"
    show "batch = []"
    proof (rule ccontr)
      assume "batch \<noteq> []"
      moreover from failed obtain s' where "run_agent P batch metadata s = (Inl BatchIsEmpty, s')"
        by (cases "run_agent P batch metadata s") auto
      ultimately have "\<exists>f. BatchIsEmpty = raised f" by (rule run_agent_error)
      with raised_not_empty show False by metis
    qed
  next
    assume "batch = []"
    then show "fst (run_agent P batch metadata s) = Inl BatchIsEmpty" by (simp add: run_agent_empty)
  qed
next
  assume "form_batches P input = Inr (batches, rest)"
  then show "[] \<notin> set batches" by (rule form_batches_nonempty)
next
  show "fst (task_step P metadata (Created batch) s) = Raised BatchIsEmpty \<longleftrightarrow> batch = []"
    by (cases batch) (simp_all add: Let_def)
next
  assume "outcome (fst (Batched_run P input metadata s)) = Some e"
  from Batched_run_error [OF this]
  show "outcome input = Some e \<or> e = RangeStepZero \<or> e = CancelledError
        \<or> (\<exists>errors. e = ExceptionGroup errors \<and> BatchIsEmpty \<notin> set errors
               \<and> (\<forall>x \<in> set errors. \<exists>msg. x = CollaboratorFailure msg))"
    by fastforce
qed

lemma two_failures_run:
  "fst (Batched_run (failing_on [''2'', ''3''] 1 5 3) (generate (map agent_record [1, 2, 3])) 0 all_at_once)
     = Raise (ExceptionGroup [CollaboratorFailure ''timeout'', CollaboratorFailure ''timeout''])
   \<and> map input_agent_ids
         (db (snd (Batched_run (failing_on [''2'', ''3''] 1 5 3) (generate (map agent_record [1, 2, 3])) 0
                     all_at_once)))
       = [''1'']"
  by (simp add: Batched_run_def alloc_def form_batches_def generate_def failing_on_def accept_all_def
     run_batches_def run_batches_from.simps run_wave_def TaskGroup_def by_turns_def
     query_def insert_record_def print_def empty_state_def all_at_once_def
     quiet_world_def agent_record_def serialize_agent_ids_def str_def digits_lt10 digit_char_def Let_def)

text \<open>
  Witness for claim C8: three batches of one record each in one chunk, the analysis
  failing on the second and on the third while the task of the first comes to its
  end; the run ends with the group of the two failures, and the work unit given an
  empty batch fails with the empty-batch error.
\<close>

theorem empty_batch_branch_unreachable_witness:
  "form_batches (failing_on [''2'', ''3''] 1 5 3) (generate (map agent_record [1, 2, 3]))
     = Inr ([[agent_record 1], [agent_record 2], [agent_record 3]], Done)
   \<and> [] \<notin> set [[agent_record 1], [agent_record 2], [agent_record 3]]
   \<and> outcome (fst (Batched_run (failing_on [''2'', ''3''] 1 5 3) (generate (map agent_record [1, 2, 3])) 0
                     all_at_once))
       = Some (ExceptionGroup [CollaboratorFailure ''timeout'', CollaboratorFailure ''timeout''])
   \<and> BatchIsEmpty \<notin> set [CollaboratorFailure ''timeout'', CollaboratorFailure ''timeout'']
   \<and> fst (run_agent (failing_on [''2'', ''3''] 1 5 3) [] 0 all_at_once) = Inl BatchIsEmpty
   \<and> fst (task_step (failing_on [''2'', ''3''] 1 5 3) 0 (Created []) all_at_once) = Raised BatchIsEmpty"
proof -
  let ?P = "failing_on [''2'', ''3''] 1 5 3"
  have formed: "form_batches ?P (generate (map agent_record [1, 2, 3]))
     = Inr ([[agent_record 1], [agent_record 2], [agent_record 3]], Done)"
    by (simp add: form_batches_def generate_def failing_on_def accept_all_def)
  have failed: "outcome (fst (Batched_run ?P (generate (map agent_record [1, 2, 3])) 0 all_at_once))
       = Some (ExceptionGroup [CollaboratorFailure ''timeout'', CollaboratorFailure ''timeout''])"
    by (simp only: two_failures_run outcome.simps)
  from empty_batch_branch_unreachable
         [of ?P "[]" 0 all_at_once "generate (map agent_record [1, 2, 3])"
             "[[agent_record 1], [agent_record 2], [agent_record 3]]" Done
             "ExceptionGroup [CollaboratorFailure ''timeout'', CollaboratorFailure ''timeout'']"]
       formed failed
  show ?thesis by simp
qed

section \<open>A failure in a wave\<close>





section \<open>Composition\<close>

text \<open>
  Claim C9. The composed stage, run on an input with a metadata map, yields exactly what
  the second stage yields when it is run, with the same metadata map, on what the first
  stage yields for that input.
\<close>

theorem composed_run_is_second_after_first:
  "ror second_pipeline first_pipeline input metadata
     = second_pipeline (first_pipeline input metadata) metadata"
  by (simp add: ror_def)

section \<open>The recursion stage\<close>

lemma outcome_yield_each [simp]: "outcome (yield_each f g) = outcome g"
  by (induction g) simp_all

lemma yields_yield_each [simp]: "yields (yield_each f g) = map f (yields g)"
  by (induction g) simp_all

lemma outcome_and_then [simp]:
  "outcome (and_then g h) = (case outcome g of None \<Rightarrow> outcome h | Some e \<Rightarrow> Some e)"
  by (induction g) simp_all

lemma yields_and_then:
  "yields (and_then g h) = (case outcome g of None \<Rightarrow> yields g @ yields h | Some e \<Rightarrow> yields g)"
  by (induction g) (simp_all split: option.splits)

lemma outcome_generate [simp]: "outcome (generate xs) = None"
  by (simp add: generate_def)

lemma yields_generate [simp]: "yields (generate xs) = xs"
  by (simp add: generate_def)

lemma materialize_generate [simp]: "materialize (generate xs) = Inr xs"
  by (simp add: materialize_def generate_def)

lemma depth_guard_first:
  "max_depth R \<le> depth \<Longrightarrow>
   Recursion_run' R input metadata depth s = (Raise (MaxDepthReached (max_depth R)), s)"
  by (simp add: Recursion_run'.simps)

lemma two_levels_then_guard:
  assumes limit: "max_depth R = 2"
    and never: "\<forall>results. \<not> stopper R results"
    and input: "materialize input = Inr input_list"
    and level0: "pipeline R (generate input_list) (next_addr s)
                   (print (RunningPipeline 0 (length input_list))
                      (snd (alloc ((heap s metadata)(''recursion_depth'' \<mapsto> JInt 0)) s)))
                 = (inner0, s0)"
    and ok0: "outcome inner0 = None"
    and level1: "pipeline R (generate (mapper R (yields inner0))) (next_addr s0)
                   (print (RunningPipeline 1 (length (mapper R (yields inner0))))
                      (snd (alloc ((heap s0 (next_addr s))(''recursion_depth'' \<mapsto> JInt 1)) s0)))
                 = (inner1, s1)"
    and ok1: "outcome inner1 = None"
  shows "snd (Recursion_run R input metadata s) = s1
         \<and> outcome (fst (Recursion_run R input metadata s)) = Some (MaxDepthReached 2)"
proof -
  let ?L1 = "mapper R (yields inner0)"
  let ?L2 = "mapper R (yields inner1)"
  have d2: "Recursion_run' R (generate ?L2) (next_addr s0) 2 s1 = (Raise (MaxDepthReached 2), s1)"
    using limit by (simp add: depth_guard_first)
  have d1: "snd (Recursion_run' R (generate ?L1) (next_addr s) 1 s0) = s1
            \<and> outcome (fst (Recursion_run' R (generate ?L1) (next_addr s) 1 s0)) = Some (MaxDepthReached 2)"
    using limit never level1 ok1 d2
    by (subst (1 2) Recursion_run'.simps) (simp add: alloc_def Let_def)
  then obtain sub where sub: "Recursion_run' R (generate ?L1) (next_addr s) 1 s0 = (sub, s1)"
    and failed: "outcome sub = Some (MaxDepthReached 2)"
    by (cases "Recursion_run' R (generate ?L1) (next_addr s) 1 s0") auto
  have "snd (Recursion_run' R input metadata 0 s) = s1
        \<and> outcome (fst (Recursion_run' R input metadata 0 s)) = Some (MaxDepthReached 2)"
    using limit never input level0 ok0 sub failed
    by (subst (1 2) Recursion_run'.simps) (simp add: alloc_def Let_def)
  then show ?thesis
    by (simp add: Recursion_run_def split: prod.splits)
qed

text \<open>
  Claim C1, on the code. The inner stage hands its input on, the stop predicate fires
  on at most one result and the mapper keeps the first result. On the input
  \<^verbatim>\<open>[1, 2]\<close> the two results of depth 0 are yielded as the pairs \<^verbatim>\<open>(1, [1, 2])\<close> and
  \<^verbatim>\<open>(2, [1, 2])\<close>; the result of depth 1 is yielded by the invocation at depth 1 as
  \<^verbatim>\<open>(1, [1])\<close> and then wrapped once more by the loop over the recursive call at depth
  0, so that the run yields \<^verbatim>\<open>((1, [1]), [1])\<close>: a pair inside a pair, not the pair of the
  result and the input list of its depth.
\<close>

theorem depth_one_result_is_nested:
  "fst (Recursion_run (echo_recursion 10) (generate [1, 2]) 0 empty_state)
     = Yield (Tuple (Item 1) [1, 2])
         (Yield (Tuple (Item 2) [1, 2])
           (Yield (Tuple (Tuple (Item 1) [1]) [1]) Done))
   \<and> Tuple (Tuple (Item 1) [1]) [1] \<noteq> Tuple (Item (1::nat)) [1::nat]"
  by (simp add: Recursion_run_def Recursion_run'.simps echo_recursion_def echo_stage_def
        generate_def materialize_def alloc_def print_def empty_state_def Let_def)

text \<open>
  Claim C6, as stated, for a limit below zero: with \<^verbatim>\<open>max_depth = -1\<close> the run fails
  in its first invocation, which is at depth 0, and the error reports \<^verbatim>\<open>-1\<close>, the
  limit, not the depth. The number in the message is \<^verbatim>\<open>max_depth\<close> at every depth.
\<close>

theorem depth_error_reports_the_limit:
  "Recursion_run' (never_stopping (- 1)) (generate [7]) 0 0 empty_state
     = (Raise (MaxDepthReached (- 1)), empty_state)
   \<and> fst (Recursion_run (never_stopping (- 1)) (generate [7]) 0 empty_state)
       = Raise (MaxDepthReached (- 1))
   \<and> MaxDepthReached (- 1) \<noteq> MaxDepthReached 0"
  by (simp add: Recursion_run_def Recursion_run'.simps never_stopping_def echo_recursion_def)

text \<open>
  Claim C6, amended in what the error reports. An invocation at a depth that has
  reached \<^verbatim>\<open>max_depth\<close> fails with the depth error, which reports \<^verbatim>\<open>max_depth\<close> (the
  depth of the invocation when the two are equal), whatever the input and the inner
  stage are, even an input that would itself fail, and it leaves the state as it was:
  no dictionary built, nothing printed, the inner stage not run. With
  \<^verbatim>\<open>max_depth = 2\<close> and a stop predicate that never fires, a run whose inner stage
  finishes at depths 0 and 1 ends with the depth error, in the state that the inner
  stage left at depth 1: nothing was done at depth 2.
\<close>

theorem depth_guard_before_any_work:
  "(max_depth R \<le> depth \<longrightarrow>
      Recursion_run' R input metadata depth s = (Raise (MaxDepthReached (max_depth R)), s))
   \<and> (max_depth R = 2 \<and> (\<forall>results. \<not> stopper R results)
        \<and> materialize input = Inr input_list
        \<and> pipeline R (generate input_list) (next_addr s)
              (print (RunningPipeline 0 (length input_list))
                 (snd (alloc ((heap s metadata)(''recursion_depth'' \<mapsto> JInt 0)) s)))
            = (inner0, s0)
        \<and> outcome inner0 = None
        \<and> pipeline R (generate (mapper R (yields inner0))) (next_addr s0)
              (print (RunningPipeline 1 (length (mapper R (yields inner0))))
                 (snd (alloc ((heap s0 (next_addr s))(''recursion_depth'' \<mapsto> JInt 1)) s0)))
            = (inner1, s1)
        \<and> outcome inner1 = None
      \<longrightarrow> snd (Recursion_run R input metadata s) = s1
          \<and> outcome (fst (Recursion_run R input metadata s)) = Some (MaxDepthReached 2)
          \<and> Recursion_run' R (generate (mapper R (yields inner1))) (next_addr s0) 2 s1
              = (Raise (MaxDepthReached 2), s1))"
proof (intro conjI impI)
  assume "max_depth R \<le> depth"
  then show "Recursion_run' R input metadata depth s = (Raise (MaxDepthReached (max_depth R)), s)"
    by (rule depth_guard_first)
next
  assume h: "max_depth R = 2 \<and> (\<forall>results. \<not> stopper R results)
        \<and> materialize input = Inr input_list
        \<and> pipeline R (generate input_list) (next_addr s)
              (print (RunningPipeline 0 (length input_list))
                 (snd (alloc ((heap s metadata)(''recursion_depth'' \<mapsto> JInt 0)) s)))
            = (inner0, s0)
        \<and> outcome inner0 = None
        \<and> pipeline R (generate (mapper R (yields inner0))) (next_addr s0)
              (print (RunningPipeline 1 (length (mapper R (yields inner0))))
                 (snd (alloc ((heap s0 (next_addr s))(''recursion_depth'' \<mapsto> JInt 1)) s0)))
            = (inner1, s1)
        \<and> outcome inner1 = None"
  then have both: "snd (Recursion_run R input metadata s) = s1
         \<and> outcome (fst (Recursion_run R input metadata s)) = Some (MaxDepthReached 2)"
    by (intro two_levels_then_guard [of R input input_list s metadata inner0 s0 inner1 s1]) simp_all
  from both show "snd (Recursion_run R input metadata s) = s1" by simp
  from both show "outcome (fst (Recursion_run R input metadata s)) = Some (MaxDepthReached 2)" by simp
  from h have "max_depth R \<le> 2" by simp
  from depth_guard_first [OF this] h
  show "Recursion_run' R (generate (mapper R (yields inner1))) (next_addr s0) 2 s1
              = (Raise (MaxDepthReached 2), s1)" by simp
qed

text \<open>
  Witness for claim C6: the stage around the inner stage that hands its input on, with
  \<^verbatim>\<open>max_depth = 2\<close> and a stop predicate that never fires, on the input \<^verbatim>\<open>[7]\<close>. An
  invocation at depth 5 fails at once; the run from depth 0 prints its line for the
  depths 0 and 1 and for no other, and ends with the depth error.
\<close>

theorem depth_guard_before_any_work_witness:
  "max_depth (never_stopping 2) \<le> 5
   \<and> Recursion_run' (never_stopping 2) (generate [7]) 0 5 empty_state
       = (Raise (MaxDepthReached 2), empty_state)
   \<and> max_depth (never_stopping 2) = 2
   \<and> materialize (generate [7 :: nat]) = Inr [7]
   \<and> outcome (fst (Recursion_run (never_stopping 2) (generate [7]) 0 empty_state))
       = Some (MaxDepthReached 2)
   \<and> stdout (snd (Recursion_run (never_stopping 2) (generate [7]) 0 empty_state))
       = [RunningPipeline 0 1, RunningPipeline 1 1]"
proof -
  let ?R = "never_stopping 2"
  let ?s0 = "print (RunningPipeline 0 1)
               (snd (alloc ((heap empty_state 0)(''recursion_depth'' \<mapsto> JInt 0)) empty_state))"
  let ?s1 = "print (RunningPipeline 1 1)
               (snd (alloc ((heap ?s0 (next_addr empty_state))(''recursion_depth'' \<mapsto> JInt 1)) ?s0))"
  have limit: "max_depth ?R = 2" and never: "\<forall>results. \<not> stopper ?R results"
    and keep: "mapper ?R [7] = [7]" and echo: "pipeline ?R = echo_stage"
    by (simp_all add: never_stopping_def echo_recursion_def)
  have printed: "stdout ?s1 = [RunningPipeline 0 1, RunningPipeline 1 1]"
    by (simp add: print_def alloc_def empty_state_def)
  from depth_guard_before_any_work
         [of ?R 5 "generate [7]" 0 empty_state "[7]" "generate [7]" ?s0 "generate [7]" ?s1]
       limit never keep echo printed
  show ?thesis by (simp add: echo_stage_def)
qed

section \<open>The cache of the work unit\<close>

lemma sort_key_Nil_iff: "sort_key f xs = [] \<longleftrightarrow> xs = []"
  by (metis length_sort list.size(3) length_0_conv)

lemma query_None_iff:
  "query table atype run_id ids = None \<longleftrightarrow>
   filter (\<lambda>r. bar_ingestion_run_id r = run_id \<and> input_agent_ids r = ids \<and> bar_analysis_type r = atype) table = []"
proof -
  let ?rows = "filter (\<lambda>r. bar_ingestion_run_id r = run_id \<and> input_agent_ids r = ids \<and> bar_analysis_type r = atype) table"
  have "query table atype run_id ids = None \<longleftrightarrow> sort_key (\<lambda>r. - bar_created_at r) ?rows = []"
    by (cases "sort_key (\<lambda>r. - bar_created_at r) ?rows") (simp_all add: query_def)
  then show ?thesis by (simp only: sort_key_Nil_iff)
qed

lemma query_Some_row:
  assumes "query table atype run_id ids = Some r"
  shows "r \<in> set table \<and> bar_ingestion_run_id r = run_id \<and> input_agent_ids r = ids
         \<and> bar_analysis_type r = atype"
proof -
  let ?rows = "filter (\<lambda>r. bar_ingestion_run_id r = run_id \<and> input_agent_ids r = ids \<and> bar_analysis_type r = atype) table"
  from assms have "r \<in> set (sort_key (\<lambda>r. - bar_created_at r) ?rows)"
    by (cases "sort_key (\<lambda>r. - bar_created_at r) ?rows") (simp_all add: query_def)
  then have "r \<in> set ?rows" by simp
  then show ?thesis by simp
qed

lemma query_finds:
  assumes "row \<in> set table" and "bar_ingestion_run_id row = run_id" and "input_agent_ids row = ids"
    and "bar_analysis_type row = atype"
  shows "\<exists>r. query table atype run_id ids = Some r"
proof (cases "query table atype run_id ids")
  case None
  then have "filter (\<lambda>r. bar_ingestion_run_id r = run_id \<and> input_agent_ids r = ids \<and> bar_analysis_type r = atype) table = []"
    by (simp only: query_None_iff)
  with assms show ?thesis by (simp add: filter_empty_conv)
next
  case (Some r)
  then show ?thesis by simp
qed

lemma query_fresh_row:
  assumes "query table atype run_id ids = None"
    and "bar_ingestion_run_id row = run_id" and "input_agent_ids row = ids" and "bar_analysis_type row = atype"
  shows "query (table @ [row]) atype run_id ids = Some row"
proof -
  from assms(1) have "filter (\<lambda>r. bar_ingestion_run_id r = run_id \<and> input_agent_ids r = ids \<and> bar_analysis_type r = atype) table = []"
    by (simp only: query_None_iff)
  with assms(2-4) show ?thesis by (simp add: query_def)
qed

lemma run_agent_hit:
  assumes "batch \<noteq> []"
    and "query (db s) (analysis_type P) (har_ingestion_run_id (hd batch))
           (serialize_agent_ids (map har_id batch)) = Some r"
    and "\<not> ignore_cached P"
  shows "run_agent P batch metadata s = (Inr r, s)"
  using assms by (cases batch) (simp_all add: run_agent_def)

lemma run_agent_computed:
  assumes "batch \<noteq> []"
    and "query (db s) (analysis_type P) (har_ingestion_run_id (hd batch))
           (serialize_agent_ids (map har_id batch)) = None \<or> ignore_cached P"
    and "run_agent P batch metadata s = (Inr r, s1)"
  shows "calls s1 = calls s @ [Analyze (map data batch), SelectTop batch (analysis r)]
         \<and> db s1 = db s @ [r]
         \<and> bar_ingestion_run_id r = har_ingestion_run_id (hd batch)
         \<and> input_agent_ids r = serialize_agent_ids (map har_id batch)
         \<and> bar_analysis_type r = analysis_type P
         \<and> meta r = heap s metadata
         \<and> heap s1 = heap s \<and> next_addr s1 = next_addr s"
  using assms
  by (cases batch)
     (auto simp: run_agent_def Let_def insert_record_def split: prod.splits sum.splits if_splits)

lemma run_agent_again:
  assumes first: "run_agent P b1 metadata s = (Inr r1, s1)"
    and scope: "har_ingestion_run_id (hd b2) = har_ingestion_run_id (hd b1)"
    and ids: "mset (map har_id b2) = mset (map har_id b1)"
    and cache: "\<not> ignore_cached P"
    and store: "db s2 = db s1"
  shows "run_agent P b2 metadata2 s2 = (Inr r1, s2)"
proof -
  let ?key = "query (db s) (analysis_type P) (har_ingestion_run_id (hd b1)) (serialize_agent_ids (map har_id b1))"
  from first have ne1: "b1 \<noteq> []" by (auto simp: run_agent_def)
  with ids have ne2: "b2 \<noteq> []" by auto
  from ids have same: "serialize_agent_ids (map har_id b2) = serialize_agent_ids (map har_id b1)"
    by (simp only: serialize_agent_ids_eq_iff_mset)
  have "query (db s1) (analysis_type P) (har_ingestion_run_id (hd b1)) (serialize_agent_ids (map har_id b1)) = Some r1"
  proof (cases ?key)
    case None
    from run_agent_computed [OF ne1 _ first] None
    have "db s1 = db s @ [r1]" and "bar_ingestion_run_id r1 = har_ingestion_run_id (hd b1)"
      and "input_agent_ids r1 = serialize_agent_ids (map har_id b1)"
      and "bar_analysis_type r1 = analysis_type P" by simp_all
    with query_fresh_row [OF None] show ?thesis by simp
  next
    case (Some r)
    from run_agent_hit [OF ne1 Some cache, of metadata] first have "r1 = r" and "s1 = s" by simp_all
    with Some show ?thesis by simp
  qed
  with scope same store
  have "query (db s2) (analysis_type P) (har_ingestion_run_id (hd b2)) (serialize_agent_ids (map har_id b2)) = Some r1"
    by simp
  from run_agent_hit [OF ne2 this cache] show ?thesis .
qed

lemma first_run:
  "run_agent (accept_all 2 5 2) [agent_record 1, agent_record 2] 0 empty_state
     = (Inr first_artifact, after_first_run)"
  by (simp add: run_agent_def accept_all_def query_def insert_record_def empty_state_def
        quiet_world_def agent_record_def serialize_agent_ids_def str_def digits_lt10 digit_char_def
        first_artifact_def after_first_run_def Let_def)

text \<open>
  Claim C3. When the store holds an artifact under the key of a batch (the run of its
  first record, the analysis type, the fingerprint of its ids) and \<^verbatim>\<open>ignore_cached\<close> is
  off, the work unit returns an artifact of the store with that key and leaves the
  state as it was: no collaborator is called and nothing is written. Hence, of two work units run one
  after the other on batches with the same run and the same ids, the second returns
  the artifact that the first returned and calls no collaborator; when the store held
  no artifact under the key before the first, the first called the analysis exactly
  once, and that is the only call of the two runs.
\<close>

theorem cached_artifact_is_reused:
  "(batch \<noteq> [] \<and> row \<in> set (db s)
      \<and> bar_ingestion_run_id row = har_ingestion_run_id (hd batch)
      \<and> input_agent_ids row = serialize_agent_ids (map har_id batch)
      \<and> bar_analysis_type row = analysis_type P
      \<and> \<not> ignore_cached P
     \<longrightarrow> (\<exists>r \<in> set (db s).
            bar_ingestion_run_id r = har_ingestion_run_id (hd batch)
            \<and> input_agent_ids r = serialize_agent_ids (map har_id batch)
            \<and> bar_analysis_type r = analysis_type P
            \<and> run_agent P batch metadata s = (Inr r, s)))
   \<and> (run_agent P b1 metadata1 s0 = (Inr r1, s1)
        \<and> har_ingestion_run_id (hd b2) = har_ingestion_run_id (hd b1)
        \<and> mset (map har_id b2) = mset (map har_id b1)
        \<and> \<not> ignore_cached P
        \<and> db s2 = db s1
       \<longrightarrow> run_agent P b2 metadata2 s2 = (Inr r1, s2)
           \<and> (query (db s0) (analysis_type P) (har_ingestion_run_id (hd b1))
                  (serialize_agent_ids (map har_id b1)) = None
                \<longrightarrow> calls s1 = calls s0 @ [Analyze (map data b1), SelectTop b1 (analysis r1)]))"
proof (intro conjI impI)
  assume h: "batch \<noteq> [] \<and> row \<in> set (db s)
      \<and> bar_ingestion_run_id row = har_ingestion_run_id (hd batch)
      \<and> input_agent_ids row = serialize_agent_ids (map har_id batch)
      \<and> bar_analysis_type row = analysis_type P
      \<and> \<not> ignore_cached P"
  then obtain r where found: "query (db s) (analysis_type P) (har_ingestion_run_id (hd batch))
            (serialize_agent_ids (map har_id batch)) = Some r"
    using query_finds [of row "db s"] by blast
  from h found have "run_agent P batch metadata s = (Inr r, s)" by (intro run_agent_hit) simp_all
  with query_Some_row [OF found]
  show "\<exists>r \<in> set (db s).
            bar_ingestion_run_id r = har_ingestion_run_id (hd batch)
            \<and> input_agent_ids r = serialize_agent_ids (map har_id batch)
            \<and> bar_analysis_type r = analysis_type P
            \<and> run_agent P batch metadata s = (Inr r, s)" by blast
next
  assume h: "run_agent P b1 metadata1 s0 = (Inr r1, s1)
        \<and> har_ingestion_run_id (hd b2) = har_ingestion_run_id (hd b1)
        \<and> mset (map har_id b2) = mset (map har_id b1)
        \<and> \<not> ignore_cached P
        \<and> db s2 = db s1"
  then show "run_agent P b2 metadata2 s2 = (Inr r1, s2)"
    by (intro run_agent_again [of P b1 metadata1 s0 r1 s1]) simp_all
  assume cold: "query (db s0) (analysis_type P) (har_ingestion_run_id (hd b1))
                  (serialize_agent_ids (map har_id b1)) = None"
  from h have first: "run_agent P b1 metadata1 s0 = (Inr r1, s1)" by simp
  then have "b1 \<noteq> []" by (auto simp: run_agent_def)
  from run_agent_computed [OF this _ first] cold
  show "calls s1 = calls s0 @ [Analyze (map data b1), SelectTop b1 (analysis r1)]" by simp
qed

text \<open>
  Witness for claim C3: the batch of the records 1 and 2 in the empty store, and then
  the same two records in the other order.
\<close>

theorem cached_artifact_is_reused_witness:
  "[agent_record 2, agent_record 1] \<noteq> []
   \<and> first_artifact \<in> set (db after_first_run)
   \<and> bar_ingestion_run_id first_artifact = har_ingestion_run_id (hd [agent_record 2, agent_record 1])
   \<and> input_agent_ids first_artifact = serialize_agent_ids (map har_id [agent_record 2, agent_record 1])
   \<and> bar_analysis_type first_artifact = analysis_type (accept_all 2 5 2)
   \<and> \<not> ignore_cached (accept_all 2 5 2)
   \<and> query (db empty_state) (analysis_type (accept_all 2 5 2))
         (har_ingestion_run_id (hd [agent_record 1, agent_record 2]))
         (serialize_agent_ids (map har_id [agent_record 1, agent_record 2])) = None
   \<and> run_agent (accept_all 2 5 2) [agent_record 1, agent_record 2] 0 empty_state
       = (Inr first_artifact, after_first_run)
   \<and> run_agent (accept_all 2 5 2) [agent_record 2, agent_record 1] 0 after_first_run
       = (Inr first_artifact, after_first_run)
   \<and> calls after_first_run
       = calls empty_state @ [Analyze (map data [agent_record 1, agent_record 2]),
                              SelectTop [agent_record 1, agent_record 2] (analysis first_artifact)]"
proof -
  let ?P = "accept_all 2 5 2"
  let ?ba = "[agent_record 1, agent_record 2]"
  let ?bb = "[agent_record 2, agent_record 1]"
  have stored: "first_artifact \<in> set (db after_first_run)" by (simp add: after_first_run_def)
  have key: "bar_ingestion_run_id first_artifact = har_ingestion_run_id (hd ?bb)"
    "input_agent_ids first_artifact = serialize_agent_ids (map har_id ?bb)"
    "bar_analysis_type first_artifact = analysis_type ?P"
    by (simp_all add: first_artifact_def accept_all_def agent_record_def
          serialize_agent_ids_def str_def digits_lt10 digit_char_def)
  have cold: "query (db empty_state) (analysis_type ?P) (har_ingestion_run_id (hd ?ba))
                (serialize_agent_ids (map har_id ?ba)) = None"
    by (simp add: query_def empty_state_def)
  have cache: "\<not> ignore_cached ?P" by (simp add: accept_all_def)
  have scope: "har_ingestion_run_id (hd ?bb) = har_ingestion_run_id (hd ?ba)"
    by (simp add: agent_record_def)
  have ids: "mset (map har_id ?bb) = mset (map har_id ?ba)" by (simp add: agent_record_def)
  from cached_artifact_is_reused
         [of ?bb first_artifact after_first_run ?P 0 ?ba 0 empty_state first_artifact
             after_first_run ?bb after_first_run 0]
       stored key cold cache scope ids first_run
  have "run_agent ?P ?bb 0 after_first_run = (Inr first_artifact, after_first_run)
        \<and> calls after_first_run
            = calls empty_state @ [Analyze (map data ?ba), SelectTop ?ba (analysis first_artifact)]"
    by simp
  with stored key cold cache first_run show ?thesis by simp
qed


text \<open>
  Inside a task group the check and the write are not one step. Two tasks of one
  chunk with the same key both read the store before either has written: both miss,
  both call the collaborators, and both insert an artifact.
\<close>

lemma same_key_tasks_both_miss:
  "map input_agent_ids
     (db (snd (Batched_run (accept_all 1 6 3) (generate (map agent_record [1, 1])) 0 empty_state)))
     = [''1'', ''1'']
   \<and> length (calls (snd (Batched_run (accept_all 1 6 3) (generate (map agent_record [1, 1])) 0 empty_state)))
       = 4"
  by (simp add: Batched_run_def alloc_def form_batches_def generate_def merged_metadata_def
        run_batches_def run_batches_from.simps run_wave_def TaskGroup_def by_turns_def
        query_def insert_record_def print_def
        accept_all_def empty_state_def quiet_world_def agent_record_def
        serialize_agent_ids_def str_def digits_lt10 digit_char_def Let_def)

section \<open>The metadata dictionaries\<close>

text \<open>
  The work units read the dictionary they are handed and write none; the batching
  stage builds one new dictionary; the recursion stage builds one at each depth.
\<close>

lemma run_batches_heap:
  "heap (snd (run_batches P batches metadata s)) = heap s
   \<and> next_addr (snd (run_batches P batches metadata s)) = next_addr s"
  by (simp add: run_batches_def run_batches_from_heap)

lemma Batched_run_heap:
  "heap (snd (Batched_run P input metadata s))
     = (heap s)(next_addr s := merged_metadata P (heap s metadata))
   \<and> next_addr (snd (Batched_run P input metadata s)) = Suc (next_addr s)"
proof (cases "form_batches P input")
  case (Inl e)
  then show ?thesis by (simp add: Batched_run_def alloc_def)
next
  case (Inr p)
  obtain batches rest where p: "p = (batches, rest)" by (cases p)
  let ?s1 = "s\<lparr>heap := (heap s)(next_addr s := merged_metadata P (heap s metadata)),
               next_addr := Suc (next_addr s)\<rparr>"
  from run_batches_heap [of P batches "next_addr s" ?s1] Inr p show ?thesis
    by (simp add: Batched_run_def alloc_def split: prod.splits)
qed

lemma merged_metadata_caller_wins:
  "caller k = Some v \<Longrightarrow> merged_metadata P caller k = Some v"
  by (simp add: merged_metadata_def)

lemma Recursion_frame:
  assumes inner: "\<And>input a s out s'. pipeline R input a s = (out, s') \<Longrightarrow>
             next_addr s \<le> next_addr s' \<and> (\<forall>b<next_addr s. b \<noteq> a \<longrightarrow> heap s' b = heap s b)"
  shows "Recursion_run' R input metadata depth s = (out, s') \<Longrightarrow>
         next_addr s \<le> next_addr s' \<and> (\<forall>b<next_addr s. heap s' b = heap s b)"
proof (induction "nat (max_depth R - depth)" arbitrary: input metadata depth s out s')
  case 0
  then have "max_depth R \<le> depth" by simp
  with "0.prems" show ?case by (simp add: depth_guard_first)
next
  case (Suc n)
  then have below: "\<not> max_depth R \<le> depth" by simp
  show ?case
  proof (cases "materialize input")
    case (Inl e)
    with below Suc.prems show ?thesis by (subst (asm) Recursion_run'.simps) simp
  next
    case (Inr input_list)
    let ?a = "next_addr s"
    let ?s1 = "print (RunningPipeline depth (length input_list))
                 (s\<lparr>heap := (heap s)(?a := (heap s metadata)(''recursion_depth'' \<mapsto> JInt depth)),
                    next_addr := Suc ?a\<rparr>)"
    obtain inner_out s2 where run: "pipeline R (generate input_list) ?a ?s1 = (inner_out, s2)"
      by (cases "pipeline R (generate input_list) ?a ?s1")
    from inner [OF run] have grow: "Suc ?a \<le> next_addr s2"
      and kept: "\<forall>b<?a. heap s2 b = heap s b"
      by (auto simp: print_def)
    let ?sub = "Recursion_run' R (generate (mapper R (yields inner_out))) ?a (depth + 1) s2"
    have "snd (Recursion_run' R input metadata depth s)
            = (if outcome inner_out \<noteq> None \<or> stopper R (yields inner_out) then s2 else snd ?sub)"
      using below Inr run
      by (subst Recursion_run'.simps) (simp add: alloc_def Let_def split: prod.splits)
    with Suc.prems
    have final: "s' = (if outcome inner_out \<noteq> None \<or> stopper R (yields inner_out) then s2 else snd ?sub)"
      by simp
    show ?thesis
    proof (cases "outcome inner_out \<noteq> None \<or> stopper R (yields inner_out)")
      case True
      with final have "s' = s2" by simp
      with grow kept show ?thesis by simp
    next
      case False
      obtain sub s3 where rec: "?sub = (sub, s3)" by (cases ?sub)
      with False final have "s' = s3" by simp
      moreover from Suc.hyps(2) have "n = nat (max_depth R - (depth + 1))" by simp
      from Suc.hyps(1) [OF this rec]
      have "next_addr s2 \<le> next_addr s3" and "\<forall>b<next_addr s2. heap s3 b = heap s2 b" by simp_all
      ultimately show ?thesis using grow kept by auto
    qed
  qed
qed

lemma Batched_run_rows:
  assumes "r \<in> set (db (snd (Batched_run P input metadata s)))"
  shows "r \<in> set (db s) \<or> meta r = merged_metadata P (heap s metadata)"
proof (cases "form_batches P input")
  case (Inl e)
  with assms show ?thesis by (simp add: Batched_run_def alloc_def)
next
  case (Inr p)
  obtain batches rest where p: "p = (batches, rest)" by (cases p)
  let ?s1 = "s\<lparr>heap := (heap s)(next_addr s := merged_metadata P (heap s metadata)),
               next_addr := Suc (next_addr s)\<rparr>"
  from assms Inr p have in_db: "r \<in> set (db (snd (run_batches P batches (next_addr s) ?s1)))"
    by (simp add: Batched_run_def alloc_def split: prod.splits)
  show ?thesis
  proof (cases "0 < concurrency P")
    case True
    with in_db have "r \<in> set (db (snd (run_batches_from P batches 0 (next_addr s) ?s1)))"
      by (simp add: run_batches_def)
    from run_batches_from_rows [OF this] show ?thesis by simp
  next
    case False
    with in_db show ?thesis by (simp add: run_batches_def split: if_splits)
  qed
qed

lemma Batched_run_frame:
  "Batched_run P input a s = (out, s') \<Longrightarrow>
   next_addr s \<le> next_addr s' \<and> (\<forall>b<next_addr s. b \<noteq> a \<longrightarrow> heap s' b = heap s b)"
  using Batched_run_heap [of P input a s] by simp

lemma scribbling_frame:
  "\<forall>input a s out s'. pipeline scribbling_recursion input a s = (out, s') \<longrightarrow>
       next_addr s \<le> next_addr s' \<and> (\<forall>b<next_addr s. b \<noteq> a \<longrightarrow> heap s' b = heap s b)"
  by (auto simp: scribbling_recursion_def scribbling_stage_def)

lemma scribbling_run:
  "heap (snd (Recursion_run scribbling_recursion (generate [1, 2]) 0 caller_state)) 1 = Map.empty
   \<and> heap (snd (Recursion_run scribbling_recursion (generate [1, 2]) 0 caller_state)) 0 ''caller''
       = Some (JStr ''cli'')"
  by (simp add: Recursion_run_def Recursion_run'.simps scribbling_recursion_def scribbling_stage_def
        echo_recursion_def generate_def materialize_def alloc_def print_def empty_state_def
        caller_state_def Let_def)

lemma accepting_run:
  "map (\<lambda>r. (input_agent_ids r, meta r ''caller'', meta r ''batch_size''))
     (db (snd (Batched_run (accept_all 2 5 2) (generate (map agent_record [1, 2, 3])) 0 caller_state)))
   = [(''1,2'', Some (JStr ''cli''), Some (JInt 2)), (''3'', Some (JStr ''cli''), Some (JInt 2))]"
  by (simp add: Batched_run_def alloc_def form_batches_def generate_def merged_metadata_def
        run_batches_def run_batches_from.simps run_wave_def TaskGroup_def by_turns_def query_def insert_record_def print_def
        accept_all_def empty_state_def caller_state_def quiet_world_def agent_record_def
        serialize_agent_ids_def str_def digits_lt10 digit_char_def Let_def)

text \<open>
  Claim C10. The batching stage leaves the caller's metadata dictionary as it was; the
  dictionary it works with is a new one at a fresh address, holding the defaults and
  the extra metadata under the caller's entries, and every artifact the run inserts
  carries it. The recursion stage leaves the caller's dictionary as it was, for every
  inner stage that writes only to the dictionary it is handed and to dictionaries it
  builds itself: at each depth the inner stage is handed a new dictionary.
\<close>

theorem caller_metadata_unchanged:
  "(metadata < next_addr s \<longrightarrow>
      heap (snd (Batched_run P input metadata s)) metadata = heap s metadata
      \<and> heap (snd (Batched_run P input metadata s)) (next_addr s) = merged_metadata P (heap s metadata)
      \<and> (heap s metadata k = Some v \<longrightarrow> merged_metadata P (heap s metadata) k = Some v)
      \<and> (r \<in> set (db (snd (Batched_run P input metadata s))) \<longrightarrow>
            r \<in> set (db s) \<or> meta r = merged_metadata P (heap s metadata)))
   \<and> ((\<forall>input a s out s'. pipeline R input a s = (out, s') \<longrightarrow>
          next_addr s \<le> next_addr s' \<and> (\<forall>b<next_addr s. b \<noteq> a \<longrightarrow> heap s' b = heap s b))
        \<and> metadata' < next_addr s0
       \<longrightarrow> heap (snd (Recursion_run R input' metadata' s0)) metadata' = heap s0 metadata')"
proof (intro conjI impI)
  assume "metadata < next_addr s"
  with Batched_run_heap [of P input metadata s]
  show "heap (snd (Batched_run P input metadata s)) metadata = heap s metadata" by simp
next
  from Batched_run_heap [of P input metadata s]
  show "heap (snd (Batched_run P input metadata s)) (next_addr s) = merged_metadata P (heap s metadata)"
    by simp
next
  assume "heap s metadata k = Some v"
  then show "merged_metadata P (heap s metadata) k = Some v" by (rule merged_metadata_caller_wins)
next
  assume "r \<in> set (db (snd (Batched_run P input metadata s)))"
  then show "r \<in> set (db s) \<or> meta r = merged_metadata P (heap s metadata)" by (rule Batched_run_rows)
next
  assume h: "(\<forall>input a s out s'. pipeline R input a s = (out, s') \<longrightarrow>
          next_addr s \<le> next_addr s' \<and> (\<forall>b<next_addr s. b \<noteq> a \<longrightarrow> heap s' b = heap s b))
        \<and> metadata' < next_addr s0"
  obtain out s1 where run: "Recursion_run' R input' metadata' 0 s0 = (out, s1)"
    by (cases "Recursion_run' R input' metadata' 0 s0")
  from h have "\<And>input a s out s'. pipeline R input a s = (out, s') \<Longrightarrow>
          next_addr s \<le> next_addr s' \<and> (\<forall>b<next_addr s. b \<noteq> a \<longrightarrow> heap s' b = heap s b)"
    by blast
  from Recursion_frame [of R, OF this run] h have "heap s1 metadata' = heap s0 metadata'" by simp
  with run show "heap (snd (Recursion_run R input' metadata' s0)) metadata' = heap s0 metadata'"
    by (simp add: Recursion_run_def)
qed

lemma analysis_frame:
  "\<forall>input a s out s'. pipeline analysis_recursion input a s = (out, s') \<longrightarrow>
       next_addr s \<le> next_addr s' \<and> (\<forall>b<next_addr s. b \<noteq> a \<longrightarrow> heap s' b = heap s b)"
proof (intro allI impI)
  fix input a s out s'
  assume "pipeline analysis_recursion input a s = (out, s')"
  then have "Batched_run (accept_all 2 5 2) input a s = (out, s')"
    by (simp add: analysis_recursion_def)
  then show "next_addr s \<le> next_addr s' \<and> (\<forall>b<next_addr s. b \<noteq> a \<longrightarrow> heap s' b = heap s b)"
    by (rule Batched_run_frame)
qed

lemma analysis_run:
  "map (\<lambda>r. (input_agent_ids r, meta r ''recursion_depth'', meta r ''caller''))
     (db (snd (Recursion_run analysis_recursion (generate (map agent_record [1, 2, 3])) 0 caller_state)))
   = [(''1,2'', Some (JInt 0), Some (JStr ''cli'')), (''3'', Some (JInt 0), Some (JStr ''cli'')),
      (''1,3'', Some (JInt 1), Some (JStr ''cli''))]"
  by (simp add: Recursion_run_def Recursion_run'.simps analysis_recursion_def materialize_def
        Batched_run_def alloc_def form_batches_def generate_def merged_metadata_def
        run_batches_def run_batches_from.simps run_wave_def TaskGroup_def by_turns_def query_def insert_record_def print_def
        accept_all_def empty_state_def caller_state_def quiet_world_def agent_record_def
        serialize_agent_ids_def str_def digits_lt10 digit_char_def Let_def)

text \<open>
  Witness for claim C10: the caller's dictionary at address 0 holds one entry. After a
  run of the batching stage it is unchanged and both artifacts carry the merged
  dictionary. After a run of the recursion stage around an inner stage that empties
  the dictionary it is handed, the dictionary built at depth 0 (address 1) is empty
  and the caller's is unchanged. After a run of the recursion stage around the
  batching stage it is unchanged as well, and the artifacts of depth 0 and of depth 1
  carry the caller's entry and the depth.
\<close>

theorem caller_metadata_unchanged_witness:
  "0 < next_addr caller_state
   \<and> heap caller_state 0 ''caller'' = Some (JStr ''cli'')
   \<and> heap (snd (Batched_run (accept_all 2 5 2) (generate (map agent_record [1, 2, 3])) 0 caller_state)) 0
       = heap caller_state 0
   \<and> merged_metadata (accept_all 2 5 2) (heap caller_state 0) ''caller'' = Some (JStr ''cli'')
   \<and> map (\<lambda>r. (input_agent_ids r, meta r ''caller'', meta r ''batch_size''))
         (db (snd (Batched_run (accept_all 2 5 2) (generate (map agent_record [1, 2, 3])) 0 caller_state)))
       = [(''1,2'', Some (JStr ''cli''), Some (JInt 2)), (''3'', Some (JStr ''cli''), Some (JInt 2))]
   \<and> heap (snd (Recursion_run scribbling_recursion (generate [1, 2]) 0 caller_state)) 0
       = heap caller_state 0
   \<and> heap (snd (Recursion_run scribbling_recursion (generate [1, 2]) 0 caller_state)) 1 = Map.empty
   \<and> heap (snd (Recursion_run analysis_recursion (generate (map agent_record [1, 2, 3])) 0 caller_state)) 0
       = heap caller_state 0
   \<and> map (\<lambda>r. (input_agent_ids r, meta r ''recursion_depth'', meta r ''caller''))
         (db (snd (Recursion_run analysis_recursion (generate (map agent_record [1, 2, 3])) 0 caller_state)))
       = [(''1,2'', Some (JInt 0), Some (JStr ''cli'')), (''3'', Some (JInt 0), Some (JStr ''cli'')),
          (''1,3'', Some (JInt 1), Some (JStr ''cli''))]"
proof -
  let ?P = "accept_all 2 5 2"
  let ?run = "Batched_run ?P (generate (map agent_record [1, 2, 3])) 0 caller_state"
  let ?row = "hd (db (snd ?run))"
  have allocated: "0 < next_addr caller_state" by (simp add: caller_state_def empty_state_def)
  have entry: "heap caller_state 0 ''caller'' = Some (JStr ''cli'')" by (simp add: caller_state_def)
  have stored: "?row \<in> set (db (snd ?run))"
    by (simp add: Batched_run_def alloc_def form_batches_def generate_def merged_metadata_def
        run_batches_def run_batches_from.simps run_wave_def TaskGroup_def by_turns_def query_def insert_record_def print_def
        accept_all_def empty_state_def caller_state_def quiet_world_def agent_record_def
        serialize_agent_ids_def str_def digits_lt10 digit_char_def Let_def)
  from caller_metadata_unchanged
         [of 0 caller_state ?P "generate (map agent_record [1, 2, 3])" "''caller''" "JStr ''cli''" ?row
             scribbling_recursion 0 caller_state "generate [1, 2]"]
       allocated entry stored scribbling_frame
  have batched: "heap (snd ?run) 0 = heap caller_state 0
        \<and> merged_metadata ?P (heap caller_state 0) ''caller'' = Some (JStr ''cli'')
        \<and> heap (snd (Recursion_run scribbling_recursion (generate [1, 2]) 0 caller_state)) 0
            = heap caller_state 0"
    by blast
  from caller_metadata_unchanged
         [of 0 caller_state ?P "generate (map agent_record [1, 2, 3])" "''caller''" "JStr ''cli''" ?row
             analysis_recursion 0 caller_state "generate (map agent_record [1, 2, 3])"]
       allocated analysis_frame
  have "heap (snd (Recursion_run analysis_recursion (generate (map agent_record [1, 2, 3])) 0 caller_state)) 0
            = heap caller_state 0"
    by blast
  with batched allocated entry accepting_run scribbling_run analysis_run show ?thesis by simp
qed

end
